theory Spec2Isabelle
  imports Main "HOL-Library.Word"
begin

unbundle bit_operations_syntax

section \<open>Basic types of the source widget\<close>

text \<open>
  A \<open>QChar\<close> is one UTF-16 code unit, a \<open>QString\<close> (and a \<open>QStringRef\<close> view of
  one) a sequence of code units.

  A C++ \<open>int\<close> has 32 bits.  The arithmetic of the widget on pixels and on visual
  columns (sums of glyph widths, tab stops, line tops) is modelled on integers with the
  two's complement wrap-around written out: \<open>add32\<close>, \<open>sub32\<close> and \<open>mul32\<close>
  reduce the exact result to the range from \<open>- 2 ^ 31\<close> to \<open>2 ^ 31 - 1\<close>.  The
  arithmetic on indices into a string, a vector or the line table is left exact: an index
  the code can read is bounded by the size of a \<open>QString\<close> or a vector, which is an
  \<open>int\<close> itself, and every read outside the bounds is an error of the model.
\<close>

type_synonym qchar = "16 word"
type_synonym qstring = "qchar list"

text \<open>
  The ways in which the arithmetic and the indexing of the widget can fail: an index
  outside a string, a vector or the line table (\<open>Q_ASSERT\<close> in \<open>QStringRef::at\<close>,
  undefined behaviour for \<open>std::vector::operator[]\<close>), an integer division by zero, and
  the division of the least \<open>int\<close> by \<open>- 1\<close>, whose quotient is no \<open>int\<close>.
\<close>

datatype error = IndexOutOfRange | DivisionByZero | DivisionOverflow

definition wrap32 :: "int \<Rightarrow> int" where
  "wrap32 x = (x + 2 ^ 31) mod 2 ^ 32 - 2 ^ 31"

definition add32 :: "int \<Rightarrow> int \<Rightarrow> int" where
  "add32 a b = wrap32 (a + b)"

definition sub32 :: "int \<Rightarrow> int \<Rightarrow> int" where
  "sub32 a b = wrap32 (a - b)"

definition mul32 :: "int \<Rightarrow> int \<Rightarrow> int" where
  "mul32 a b = wrap32 (a * b)"

text \<open>\<open>QStringRef::at(i)\<close>: the code unit at index \<open>i\<close> of the view.\<close>

definition qat :: "qstring \<Rightarrow> int \<Rightarrow> error + qchar" where
  "qat s i = (if 0 \<le> i \<and> i < int (length s) then Inr (s ! nat i) else Inl IndexOutOfRange)"

text \<open>
  C++ integer division truncates towards zero; dividing by zero traps, and so does
  dividing the least \<open>int\<close> by \<open>- 1\<close>.
\<close>

definition cdiv :: "int \<Rightarrow> int \<Rightarrow> error + int" where
  "cdiv a b =
     (if b = 0 then Inl DivisionByZero
      else if a = - (2 ^ 31) \<and> b = - 1 then Inl DivisionOverflow
      else Inr (sgn a * sgn b * (\<bar>a\<bar> div \<bar>b\<bar>)))"

definition kTabStopSize :: int where
  "kTabStopSize = 8"

definition tabChar :: qchar where
  "tabChar = 0x09"

subsection \<open>The File collaborator\<close>

text \<open>
  Modelled from the spec: the class \<open>File\<close> (File.h is not part of the sources).  It
  exposes the whole content as a string, the number of lines, and for each line its start
  offset in the content, its length in code units and a view of its text.  The line table
  is a vector of (start, length) pairs; reading it outside its range is an error.
\<close>

record File =
  content :: qstring
  m_lines :: "(int \<times> int) list"

definition lineCount :: "File \<Rightarrow> int" where
  "lineCount f = int (length (m_lines f))"

definition lineStart :: "File \<Rightarrow> int \<Rightarrow> error + int" where
  "lineStart f ln =
     (if 0 \<le> ln \<and> ln < lineCount f then Inr (fst (m_lines f ! nat ln)) else Inl IndexOutOfRange)"

definition lineLength :: "File \<Rightarrow> int \<Rightarrow> error + int" where
  "lineLength f ln =
     (if 0 \<le> ln \<and> ln < lineCount f then Inr (snd (m_lines f ! nat ln)) else Inl IndexOutOfRange)"

definition lineContent :: "File \<Rightarrow> int \<Rightarrow> error + qstring" where
  "lineContent f ln =
     (if 0 \<le> ln \<and> ln < lineCount f
      then Inr (take (nat (snd (m_lines f ! nat ln))) (drop (nat (fst (m_lines f ! nat ln))) (content f)))
      else Inl IndexOutOfRange)"

text \<open>A loaded file is well formed when every line of its table lies inside the content.\<close>

definition file_wf :: "File \<Rightarrow> bool" where
  "file_wf f = list_all (\<lambda>(s, l). 0 \<le> s \<and> 0 \<le> l \<and> s + l \<le> int (length (content f))) (m_lines f)"

subsection \<open>Locations and ranges\<close>

text \<open>
  Modelled from the spec: \<open>FileLocation\<close> and \<open>FileRange\<close> (their header is not part of
  the sources).  A location is a 0-based (line, column) pair with a null value for "no
  location"; a range is a half-open pair of locations, empty when both ends are equal.  A
  location points at a character when its line is a line of the file and its column is an
  index into that line.
\<close>

record FileLocation =
  line :: int
  column :: int

definition mkLocation :: "int \<Rightarrow> int \<Rightarrow> FileLocation" where
  "mkLocation ln col = \<lparr>line = ln, column = col\<rparr>"

definition nullLocation :: FileLocation where
  "nullLocation = mkLocation (- 1) (- 1)"

definition isNull :: "FileLocation \<Rightarrow> bool" where
  "isNull loc = (line loc = - 1)"

definition doesPointAtChar :: "FileLocation \<Rightarrow> File \<Rightarrow> bool" where
  "doesPointAtChar loc f =
     (\<not> isNull loc \<and> 0 \<le> line loc \<and> line loc < lineCount f \<and> 0 \<le> column loc \<and>
      (case lineLength f (line loc) of Inl e \<Rightarrow> False | Inr n \<Rightarrow> column loc < n))"

record FileRange =
  r_start :: FileLocation
  r_end :: FileLocation

definition mkRange :: "FileLocation \<Rightarrow> FileLocation \<Rightarrow> FileRange" where
  "mkRange a b = \<lparr>r_start = a, r_end = b\<rparr>"

definition emptyRange :: FileRange where
  "emptyRange = mkRange nullLocation nullLocation"

definition isEmpty :: "FileRange \<Rightarrow> bool" where
  "isEmpty r = (r_start r = r_end r)"

section \<open>Word boundary resolution\<close>

text \<open>\<open>isalnum\<close> of the C library on a code unit below 128: an ASCII digit or letter.\<close>

definition isalnum :: "qchar \<Rightarrow> bool" where
  "isalnum u = ((0x30 \<le> u \<and> u \<le> 0x39) \<or> (0x41 \<le> u \<and> u \<le> 0x5A) \<or> (0x61 \<le> u \<and> u \<le> 0x7A))"

definition isIdentifierChar :: "qchar \<Rightarrow> bool" where
  "isIdentifierChar u = (u \<le> 127 \<and> (isalnum u \<or> u = 0x5F))"

text \<open>
  The two \<^verbatim>\<open>while\<close> statements of \<open>findWordAtLocation\<close>:
  \<^verbatim>\<open>while (x1 - 1 >= 0 && isIdentifierChar(content.at(x1 - 1))) x1--;\<close> and
  \<^verbatim>\<open>while (x2 + 1 < content.size() && isIdentifierChar(content.at(x2 + 1))) x2++;\<close>
\<close>

function findWordLeft :: "qstring \<Rightarrow> int \<Rightarrow> error + int" where
  "findWordLeft s x1 =
     (if x1 - 1 \<ge> 0 then
        (case qat s (x1 - 1) of
           Inl e \<Rightarrow> Inl e
         | Inr c \<Rightarrow> if isIdentifierChar c then findWordLeft s (x1 - 1) else Inr x1)
      else Inr x1)"
  by pat_completeness auto
termination
  by (relation "measure (\<lambda>(s, x1). nat x1)") auto

declare findWordLeft.simps [simp del]

function findWordRight :: "qstring \<Rightarrow> int \<Rightarrow> error + int" where
  "findWordRight s x2 =
     (if x2 + 1 < int (length s) then
        (case qat s (x2 + 1) of
           Inl e \<Rightarrow> Inl e
         | Inr c \<Rightarrow> if isIdentifierChar c then findWordRight s (x2 + 1) else Inr x2)
      else Inr x2)"
  by pat_completeness auto
termination
  by (relation "measure (\<lambda>(s, x2). nat (int (length s) - x2))") auto

declare findWordRight.simps [simp del]

text \<open>\<open>SourceWidgetView::findWordAtLocation\<close>; the view's \<open>m_file\<close> may be \<open>NULL\<close>.\<close>

definition findWordAtLocation :: "File option \<Rightarrow> FileLocation \<Rightarrow> error + FileRange" where
  "findWordAtLocation m_file pt =
     (case m_file of
        None \<Rightarrow> Inr emptyRange
      | Some f \<Rightarrow>
          if \<not> doesPointAtChar pt f then Inr emptyRange
          else
            (case lineContent f (line pt) of
               Inl e \<Rightarrow> Inl e
             | Inr s \<Rightarrow>
                 (case qat s (column pt) of
                    Inl e \<Rightarrow> Inl e
                  | Inr c \<Rightarrow>
                      if \<not> isIdentifierChar c
                      then Inr (mkRange pt (mkLocation (line pt) (column pt + 1)))
                      else
                        (case findWordLeft s (column pt) of
                           Inl e \<Rightarrow> Inl e
                         | Inr x1 \<Rightarrow>
                             (case findWordRight s (column pt) of
                                Inl e \<Rightarrow> Inl e
                              | Inr x2 \<Rightarrow>
                                  Inr (mkRange (mkLocation (line pt) x1)
                                               (mkLocation (line pt) (x2 + 1))))))))"

section \<open>The line layout cursor\<close>

text \<open>
  The font services the layout consults, taken as parameters (Qt and Misc.h are not part
  of the sources): \<open>TextWidthCalculator::calculate\<close> gives the pixel width of a run of
  one or two code units, \<open>QFontMetrics::width\<close> that of one character,
  \<open>QFontMetrics::ascent\<close> the ascent and \<open>effectiveLineSpacing\<close> the line height.
\<close>

record FontMetrics =
  twc_calculate :: "qstring \<Rightarrow> int"
  fm_width :: "qchar \<Rightarrow> int"
  fm_ascent :: int
  effectiveLineSpacing :: int

record QMargins =
  margin_left :: int
  margin_top :: int
  margin_right :: int
  margin_bottom :: int

record QPoint =
  pt_x :: int
  pt_y :: int

definition mkPoint :: "int \<Rightarrow> int \<Rightarrow> QPoint" where
  "mkPoint a b = \<lparr>pt_x = a, pt_y = b\<rparr>"

text \<open>\<open>QChar::isHighSurrogate\<close>: \<^verbatim>\<open>(ucs & 0xfc00) == 0xd800\<close>.\<close>

definition isHighSurrogate :: "qchar \<Rightarrow> bool" where
  "isHighSurrogate c = (c AND 0xFC00 = 0xD800)"

definition spaceChar :: qchar where
  "spaceChar = 0x20"

record LineLayout =
  m_fm :: FontMetrics
  m_lineContent :: qstring
  m_lineTop :: int
  m_lineHeight :: int
  m_lineBaselineY :: int
  m_lineLeftMargin :: int
  m_lineStartIndex :: int
  m_tabStopPx :: int
  m_charIndex :: int
  m_charIsSurrogatePair :: bool
  m_charLeft :: int
  m_charWidth :: int
  m_charText :: qstring

text \<open>The constructor \<open>LineLayout(font, margins, file, line)\<close>; \<open>line\<close> is 0-based.\<close>

definition LineLayout_init :: "FontMetrics \<Rightarrow> QMargins \<Rightarrow> File \<Rightarrow> int \<Rightarrow> error + LineLayout" where
  "LineLayout_init fm margins file ln =
     (case lineContent file ln of
        Inl e \<Rightarrow> Inl e
      | Inr lc \<Rightarrow>
          (case lineStart file ln of
             Inl e \<Rightarrow> Inl e
           | Inr st \<Rightarrow>
               Inr \<lparr>m_fm = fm,
                    m_lineContent = lc,
                    m_lineTop = add32 (margin_top margins) (mul32 ln (effectiveLineSpacing fm)),
                    m_lineHeight = effectiveLineSpacing fm,
                    m_lineBaselineY =
                      add32 (add32 (margin_top margins) (mul32 ln (effectiveLineSpacing fm)))
                            (fm_ascent fm),
                    m_lineLeftMargin = margin_left margins,
                    m_lineStartIndex = st,
                    m_tabStopPx = mul32 (fm_width fm spaceChar) kTabStopSize,
                    m_charIndex = - 1,
                    m_charIsSurrogatePair = False,
                    m_charLeft = 0,
                    m_charWidth = 0,
                    m_charText = []\<rparr>))"

definition nextCharIndex :: "LineLayout \<Rightarrow> int" where
  "nextCharIndex lay = m_charIndex lay + 1 + (if m_charIsSurrogatePair lay then 1 else 0)"

definition hasMoreChars :: "LineLayout \<Rightarrow> bool" where
  "hasMoreChars lay = (nextCharIndex lay < int (length (m_lineContent lay)))"

definition advanceChar :: "LineLayout \<Rightarrow> error + LineLayout" where
  "advanceChar lay =
     (let idx = nextCharIndex lay;
          left = add32 (m_charLeft lay) (m_charWidth lay)
      in case qat (m_lineContent lay) idx of
           Inl e \<Rightarrow> Inl e
         | Inr ch \<Rightarrow>
             if \<not> isHighSurrogate ch then
               if ch = tabChar then
                 (case cdiv (add32 left (m_tabStopPx lay)) (m_tabStopPx lay) of
                    Inl e \<Rightarrow> Inl e
                  | Inr q \<Rightarrow>
                      Inr (lay\<lparr>m_charIndex := idx, m_charLeft := left,
                               m_charIsSurrogatePair := False,
                               m_charText := [],
                               m_charWidth := sub32 (mul32 q (m_tabStopPx lay)) left\<rparr>))
               else
                 Inr (lay\<lparr>m_charIndex := idx, m_charLeft := left,
                          m_charIsSurrogatePair := False,
                          m_charText := [ch],
                          m_charWidth := twc_calculate (m_fm lay) [ch]\<rparr>)
             else
               (case qat (m_lineContent lay) (idx + 1) of
                  Inl e \<Rightarrow> Inl e
                | Inr ch2 \<Rightarrow>
                    Inr (lay\<lparr>m_charIndex := idx, m_charLeft := left,
                             m_charIsSurrogatePair := True,
                             m_charText := [ch, ch2],
                             m_charWidth := twc_calculate (m_fm lay) [ch, ch2]\<rparr>)))"

definition charColumn :: "LineLayout \<Rightarrow> int" where
  "charColumn lay = m_charIndex lay"

definition charFileIndex :: "LineLayout \<Rightarrow> int" where
  "charFileIndex lay = m_lineStartIndex lay + m_charIndex lay"

definition charLeft :: "LineLayout \<Rightarrow> int" where
  "charLeft lay = add32 (m_lineLeftMargin lay) (m_charLeft lay)"

definition charWidth :: "LineLayout \<Rightarrow> int" where
  "charWidth lay = m_charWidth lay"

definition charText :: "LineLayout \<Rightarrow> qstring" where
  "charText lay = m_charText lay"

text \<open>Every advance moves the cursor forward, which bounds every loop over a line.\<close>

lemma advanceChar_progress:
  assumes "advanceChar lay = Inr lay'"
  shows "m_lineContent lay' = m_lineContent lay" and "m_charIndex lay' = nextCharIndex lay"
    and "nextCharIndex lay < nextCharIndex lay'"
  using assms
  by (auto simp: advanceChar_def nextCharIndex_def Let_def split: sum.splits if_splits)

text \<open>
  The loop every client of the cursor runs,
  \<^verbatim>\<open>while (lay.hasMoreChars()) { lay.advanceChar(); ... }\<close>, here collecting the cursor
  after each advance: the characters of the line in order.
\<close>

function layoutChars :: "LineLayout \<Rightarrow> error + LineLayout list" where
  "layoutChars lay =
     (if hasMoreChars lay then
        (case advanceChar lay of
           Inl e \<Rightarrow> Inl e
         | Inr lay' \<Rightarrow>
             (case layoutChars lay' of Inl e \<Rightarrow> Inl e | Inr rest \<Rightarrow> Inr (lay' # rest)))
      else Inr [])"
  by pat_completeness auto
termination
proof (relation "measure (\<lambda>lay. nat (int (length (m_lineContent lay)) - nextCharIndex lay))")
  show "wf (measure (\<lambda>lay. nat (int (length (m_lineContent lay)) - nextCharIndex lay)))"
    by simp
next
  fix lay lay'
  assume "hasMoreChars lay" and "advanceChar lay = Inr lay'"
  then show "(lay', lay) \<in> measure (\<lambda>lay. nat (int (length (m_lineContent lay)) - nextCharIndex lay))"
    using advanceChar_progress[of lay lay'] by (simp add: hasMoreChars_def)
qed

declare layoutChars.simps [simp del]

text \<open>The characters of line \<open>ln\<close> of a file, as a freshly constructed cursor gives them.\<close>

definition layoutLine :: "FontMetrics \<Rightarrow> QMargins \<Rightarrow> File \<Rightarrow> int \<Rightarrow> error + LineLayout list" where
  "layoutLine fm margins f ln =
     (case LineLayout_init fm margins f ln of Inl e \<Rightarrow> Inl e | Inr lay \<Rightarrow> layoutChars lay)"

text \<open>
  What the properties below assume of a font: no run of code units has a negative width,
  and a space and a line of text are more than zero pixels wide and high.
\<close>

definition font_ok :: "FontMetrics \<Rightarrow> bool" where
  "font_ok fm = ((\<forall>t. 0 \<le> twc_calculate fm t) \<and> 0 < fm_width fm spaceChar \<and> 0 < effectiveLineSpacing fm)"

text \<open>
  The conditions under which no sum of pixels leaves the range of an \<open>int\<close>.  A font
  is within \<open>W\<close> when no run of one or two code units and no tab stop is wider than
  \<open>W\<close> pixels.  A line fits when its length times \<open>W\<close>, alone and after the left margin, is
  below \<open>2 ^ 31\<close>.  The rows of a file fit when the number of lines times the line
  height, alone and after the top margin, is below \<open>2 ^ 31\<close>.
\<close>

definition fontWithin :: "FontMetrics \<Rightarrow> int \<Rightarrow> bool" where
  "fontWithin fm W = ((\<forall>t. length t \<le> 2 \<longrightarrow> twc_calculate fm t \<le> W) \<and>
     fm_width fm spaceChar * kTabStopSize \<le> W \<and> W < 2 ^ 31)"

definition lineFits :: "int \<Rightarrow> QMargins \<Rightarrow> qstring \<Rightarrow> bool" where
  "lineFits W margins lc = (- (2 ^ 31) \<le> margin_left margins \<and> int (length lc) * W < 2 ^ 31 \<and>
     margin_left margins + int (length lc) * W < 2 ^ 31)"

definition rowsFit :: "FontMetrics \<Rightarrow> QMargins \<Rightarrow> File \<Rightarrow> bool" where
  "rowsFit fm margins f = (- (2 ^ 31) \<le> margin_top margins \<and>
     lineCount f * effectiveLineSpacing fm < 2 ^ 31 \<and>
     margin_top margins + lineCount f * effectiveLineSpacing fm < 2 ^ 31)"

text \<open>A line is free of a dangling surrogate when its last code unit is no high surrogate.\<close>

definition noDanglingSurrogate :: "qstring \<Rightarrow> bool" where
  "noDanglingSurrogate s = (s = [] \<or> \<not> isHighSurrogate (last s))"

text \<open>
  The invariant of a cursor over a font within \<open>W\<close> on a line that fits: the pixel
  offset and the width of the current character are not negative, and their sum is at most
  \<open>W\<close> times the number of code units up to the current index.
\<close>

definition layInv :: "int \<Rightarrow> LineLayout \<Rightarrow> bool" where
  "layInv W lay = (0 < m_tabStopPx lay \<and> m_tabStopPx lay \<le> W \<and>
     (\<forall>t. 0 \<le> twc_calculate (m_fm lay) t) \<and>
     (\<forall>t. length t \<le> 2 \<longrightarrow> twc_calculate (m_fm lay) t \<le> W) \<and>
     0 \<le> m_charLeft lay \<and> 0 \<le> m_charWidth lay \<and>
     - 1 \<le> m_charIndex lay \<and> m_charIndex lay < int (length (m_lineContent lay)) \<and>
     m_charLeft lay + m_charWidth lay \<le> (m_charIndex lay + 1) * W \<and>
     int (length (m_lineContent lay)) * W < 2 ^ 31 \<and>
     - (2 ^ 31) \<le> m_lineLeftMargin lay \<and>
     m_lineLeftMargin lay + int (length (m_lineContent lay)) * W < 2 ^ 31)"

text \<open>
  The right pixel edge of the current character as the clients of the cursor compute it,
  and what holds of a cursor on line \<open>ln\<close> of a file throughout a walk that cannot fail:
  the invariant, and a line without a dangling surrogate whose length the file reports.
\<close>

definition rightEdge :: "LineLayout \<Rightarrow> int" where
  "rightEdge lay = add32 (charLeft lay) (charWidth lay)"

definition walkOk :: "int \<Rightarrow> File \<Rightarrow> int \<Rightarrow> LineLayout \<Rightarrow> bool" where
  "walkOk W f ln lay = (layInv W lay \<and> noDanglingSurrogate (m_lineContent lay) \<and>
     lineLength f ln = Inr (int (length (m_lineContent lay))))"

text \<open>\<open>measureLineLength\<close>: the length of a line in columns after expanding tab stops.\<close>

function measureLineLength_loop :: "qstring \<Rightarrow> int \<Rightarrow> int \<Rightarrow> int \<Rightarrow> int \<Rightarrow> error + int" where
  "measureLineLength_loop data tabStopSize i stop pos =
     (if i < stop then
        (case qat data i of
           Inl e \<Rightarrow> Inl e
         | Inr ch \<Rightarrow>
             if ch = tabChar then
               (case cdiv (add32 pos tabStopSize) tabStopSize of
                  Inl e \<Rightarrow> Inl e
                | Inr q \<Rightarrow> measureLineLength_loop data tabStopSize (i + 1) stop (mul32 q tabStopSize))
             else measureLineLength_loop data tabStopSize (i + 1) stop (add32 pos 1))
      else Inr pos)"
  by pat_completeness auto
termination
  by (relation "measure (\<lambda>(data, tabStopSize, i, stop, pos). nat (stop - i))") auto

declare measureLineLength_loop.simps [simp del]

definition measureLineLength :: "qstring \<Rightarrow> int \<Rightarrow> int \<Rightarrow> int \<Rightarrow> error + int" where
  "measureLineLength data start sz tabStopSize =
     measureLineLength_loop data tabStopSize start (start + sz) 0"

text \<open>
  The column count of the tab expansion in the words of the specification: a tab ends at
  the prior column rounded up to the next multiple of the tab stop size, every other code
  unit one column further.
\<close>

definition nextTabStop :: "int \<Rightarrow> int \<Rightarrow> int" where
  "nextTabStop T pos = (pos div T + 1) * T"

definition tabExpandedLength :: "int \<Rightarrow> qstring \<Rightarrow> int" where
  "tabExpandedLength T cs = foldl (\<lambda>pos ch. if ch = tabChar then nextTabStop T pos else pos + 1) 0 cs"

section \<open>The source view\<close>

subsection \<open>Colors, syntax kinds and the index\<close>

text \<open>The enumeration \<open>Qt::GlobalColor\<close>; a value-initialised entry is \<open>color0\<close>.\<close>

datatype GlobalColor =
  color0 | color1 | black | white | darkGray | gray | lightGray | red | green | blue | cyan
  | magenta | yellow | darkRed | darkGreen | darkBlue | darkCyan | darkMagenta | darkYellow
  | transparent



text \<open>
  Modelled from the spec: the index.  An \<open>indexdb::ID\<close> is a 32-bit identifier with
  \<open>kInvalidID\<close> its all-ones value; a \<open>Ref\<close> carries its symbol and a 1-based
  (line, column, endColumn) span; the \<open>Project\<close> resolves a symbol type name to its
  identifier, a symbol to its type, a file to its references (in the order in which
  \<open>queryFileRefs\<close> hands them to its callback), a 1-based location to the symbols there
  and a symbol to its single definition.  All of them are parameters of the view.
\<close>

type_synonym ID = "32 word"

definition kInvalidID :: ID where
  "kInvalidID = - 1"

record Ref =
  symbolID :: ID
  ref_line :: int
  ref_column :: int
  ref_endColumn :: int

record Project =
  getSymbolTypeID :: "string \<Rightarrow> ID"
  querySymbolType :: "ID \<Rightarrow> ID"
  queryFileRefs :: "File \<Rightarrow> Ref list"
  querySymbolsAtLocation :: "File option \<Rightarrow> int \<Rightarrow> int \<Rightarrow> string list"
  findSingleDefinitionOfSymbol :: "string \<Rightarrow> Ref"




subsection \<open>The view and its coordinate mapping\<close>

text \<open>
  The members of \<open>SourceWidgetView\<close> the functions below read or write, with the metrics
  of the widget's font (\<open>font()\<close>, \<open>fontMetrics()\<close>).
\<close>

record SourceWidgetView =
  m_margins :: QMargins
  m_file :: "File option"
  m_selection :: FileRange
  m_syntaxColoring :: "GlobalColor list"
  m_maxLineLength :: int
  v_font :: FontMetrics

definition lineTop :: "SourceWidgetView \<Rightarrow> int \<Rightarrow> int" where
  "lineTop v ln = add32 (mul32 (effectiveLineSpacing (v_font v)) ln) (margin_top (m_margins v))"

function hitTest_loop :: "File \<Rightarrow> int \<Rightarrow> int \<Rightarrow> LineLayout \<Rightarrow> error + FileLocation" where
  "hitTest_loop f ln x lay =
     (if hasMoreChars lay then
        (case advanceChar lay of
           Inl e \<Rightarrow> Inl e
         | Inr lay' \<Rightarrow>
             if x < add32 (charLeft lay') (charWidth lay') then Inr (mkLocation ln (charColumn lay'))
             else hitTest_loop f ln x lay')
      else (case lineLength f ln of Inl e \<Rightarrow> Inl e | Inr n \<Rightarrow> Inr (mkLocation ln n)))"
  by pat_completeness auto
termination
proof (relation "measure (\<lambda>(f, ln, x, lay). nat (int (length (m_lineContent lay)) - nextCharIndex lay))")
  show "wf (measure (\<lambda>(f, ln, x, lay). nat (int (length (m_lineContent lay)) - nextCharIndex lay)))"
    by simp
next
  fix f :: File and ln x :: int and lay lay'
  assume "hasMoreChars lay" and "advanceChar lay = Inr lay'"
  then show "((f, ln, x, lay'), (f, ln, x, lay))
      \<in> measure (\<lambda>(f, ln, x, lay). nat (int (length (m_lineContent lay)) - nextCharIndex lay))"
    using advanceChar_progress[of lay lay'] by (simp add: hasMoreChars_def)
qed

declare hitTest_loop.simps [simp del]

definition hitTest :: "SourceWidgetView \<Rightarrow> QPoint \<Rightarrow> error + FileLocation" where
  "hitTest v pixel =
     (case m_file v of
        None \<Rightarrow> Inr nullLocation
      | Some f \<Rightarrow>
          (case cdiv (sub32 (pt_y pixel) (margin_top (m_margins v))) (effectiveLineSpacing (v_font v)) of
             Inl e \<Rightarrow> Inl e
           | Inr ln \<Rightarrow>
               if ln < 0 then Inr (mkLocation 0 0)
               else if ln \<ge> lineCount f then Inr (mkLocation (lineCount f) 0)
               else
                 (case LineLayout_init (v_font v) (m_margins v) f ln of
                    Inl e \<Rightarrow> Inl e
                  | Inr lay \<Rightarrow> hitTest_loop f ln (pt_x pixel) lay)))"

function locationToPoint_loop :: "SourceWidgetView \<Rightarrow> FileLocation \<Rightarrow> LineLayout \<Rightarrow> error + QPoint" where
  "locationToPoint_loop v loc lay =
     (if hasMoreChars lay then
        (case advanceChar lay of
           Inl e \<Rightarrow> Inl e
         | Inr lay' \<Rightarrow>
             if charColumn lay' = column loc then Inr (mkPoint (charLeft lay') (lineTop v (line loc)))
             else locationToPoint_loop v loc lay')
      else Inr (mkPoint (add32 (charLeft lay) (charWidth lay)) (lineTop v (line loc))))"
  by pat_completeness auto
termination
proof (relation "measure (\<lambda>(v, loc, lay). nat (int (length (m_lineContent lay)) - nextCharIndex lay))")
  show "wf (measure (\<lambda>(v, loc, lay). nat (int (length (m_lineContent lay)) - nextCharIndex lay)))"
    by simp
next
  fix v :: SourceWidgetView and loc :: FileLocation and lay lay'
  assume "hasMoreChars lay" and "advanceChar lay = Inr lay'"
  then show "((v, loc, lay'), (v, loc, lay))
      \<in> measure (\<lambda>(v, loc, lay). nat (int (length (m_lineContent lay)) - nextCharIndex lay))"
    using advanceChar_progress[of lay lay'] by (simp add: hasMoreChars_def)
qed

declare locationToPoint_loop.simps [simp del]

definition locationToPoint :: "SourceWidgetView \<Rightarrow> FileLocation \<Rightarrow> error + QPoint" where
  "locationToPoint v loc =
     (case m_file v of
        None \<Rightarrow> Inr (mkPoint (margin_left (m_margins v)) (margin_top (m_margins v)))
      | Some f \<Rightarrow>
          if isNull loc then Inr (mkPoint (margin_left (m_margins v)) (margin_top (m_margins v)))
          else if line loc \<ge> lineCount f
          then Inr (mkPoint (margin_left (m_margins v)) (lineTop v (lineCount f)))
          else
            (case LineLayout_init (v_font v) (m_margins v) f (line loc) of
               Inl e \<Rightarrow> Inl e
             | Inr lay \<Rightarrow> locationToPoint_loop v loc lay))"

definition findWordAtPoint :: "SourceWidgetView \<Rightarrow> QPoint \<Rightarrow> error + FileRange" where
  "findWordAtPoint v pt =
     (case m_file v of
        None \<Rightarrow> Inr emptyRange
      | Some f \<Rightarrow>
          (case hitTest v pt of
             Inl e \<Rightarrow> Inl e
           | Inr loc \<Rightarrow>
               if doesPointAtChar loc f then findWordAtLocation (m_file v) loc
               else Inr emptyRange))"

subsection \<open>Loading a file: the color overlay\<close>










subsection \<open>Pointer events\<close>

text \<open>
  What an event handler does besides changing the view: it schedules a repaint, asks the
  main window to navigate to a reference, or runs a popup menu.  A menu entry has a
  text, is enabled or not, and may carry a symbol as its data; separators lie in between.
\<close>

datatype MenuItem = MenuAction string bool "string option" | MenuSeparator

datatype UIAction = Update | NavigateToRef Ref | ExecMenu "MenuItem list"

definition mousePressEvent :: "SourceWidgetView \<Rightarrow> QPoint \<Rightarrow> error + SourceWidgetView \<times> UIAction list" where
  "mousePressEvent v pos =
     (case findWordAtPoint v pos of
        Inl e \<Rightarrow> Inl e
      | Inr r \<Rightarrow> Inr (v\<lparr>m_selection := r\<rparr>, [Update]))"

definition mouseReleaseEvent :: "Project \<Rightarrow> SourceWidgetView \<Rightarrow> QPoint \<Rightarrow> error + SourceWidgetView \<times> UIAction list" where
  "mouseReleaseEvent project v pos =
     (if \<not> isEmpty (m_selection v) then
        (case findWordAtPoint v pos of
           Inl e \<Rightarrow> Inl e
         | Inr r \<Rightarrow>
             (let identifierClicked = (if m_selection v = r then m_selection v else emptyRange);
                  v' = v\<lparr>m_selection := emptyRange\<rparr>
              in if \<not> isEmpty identifierClicked then
                   (let symbols = querySymbolsAtLocation project (m_file v)
                                    (line (r_start identifierClicked) + 1)
                                    (column (r_start identifierClicked) + 1)
                    in if length symbols = 1
                       then Inr (v', [Update, NavigateToRef (findSingleDefinitionOfSymbol project (symbols ! 0))])
                       else Inr (v', [Update]))
                 else Inr (v', [Update])))
      else Inr (v, []))"

text \<open>The entries \<open>contextMenuEvent\<close> adds for the symbols at the selection.\<close>

fun symbolMenuItems :: "string list \<Rightarrow> MenuItem list" where
  "symbolMenuItems [] = []"
| "symbolMenuItems (symbol # rest) =
     [MenuAction symbol False None, MenuSeparator,
      MenuAction ''Cross-references...'' True (Some symbol), MenuSeparator] @ symbolMenuItems rest"

text \<open>
  \<open>SourceWidgetView::contextMenuEvent\<close>; \<open>backEnabled\<close> and \<open>forwardEnabled\<close> are the
  answers of the signal \<open>areBackAndForwardEnabled\<close>.
\<close>

definition contextMenuEvent :: "Project \<Rightarrow> bool \<Rightarrow> bool \<Rightarrow> SourceWidgetView \<Rightarrow> QPoint \<Rightarrow> error + SourceWidgetView \<times> UIAction list" where
  "contextMenuEvent project backEnabled forwardEnabled v pos =
     (case (if \<not> isEmpty (m_selection v) then
              (case findWordAtPoint v pos of
                 Inl e \<Rightarrow> Inl e
               | Inr r \<Rightarrow> Inr (if m_selection v \<noteq> r then v\<lparr>m_selection := emptyRange\<rparr> else v))
            else Inr v) of
        Inl e \<Rightarrow> Inl e
      | Inr v' \<Rightarrow>
          if isEmpty (m_selection v') then
            Inr (v', [ExecMenu [MenuAction ''Back'' backEnabled None,
                                MenuAction ''Forward'' forwardEnabled None,
                                MenuAction ''Copy File Path'' True None,
                                MenuAction ''Reveal in Sidebar'' True None],
                      Update])
          else
            (let symbols = querySymbolsAtLocation project (m_file v')
                             (line (r_start (m_selection v')) + 1)
                             (column (r_start (m_selection v')) + 1)
             in if symbols = []
                then Inr (v', [ExecMenu [MenuAction ''No symbols found'' False None], Update])
                else Inr (v', [ExecMenu (symbolMenuItems symbols), Update])))"

subsection \<open>Notions for the properties\<close>

text \<open>The symbols the index reports at the start of the view's selection.\<close>

definition symbolsAtSelection :: "Project \<Rightarrow> SourceWidgetView \<Rightarrow> string list" where
  "symbolsAtSelection project v =
     querySymbolsAtLocation project (m_file v)
       (line (r_start (m_selection v)) + 1) (column (r_start (m_selection v)) + 1)"





section \<open>Example inputs\<close>

text \<open>
  A monospaced font whose characters are 7 pixels wide (a surrogate pair 14) on lines 12
  pixels high, margins of 4 pixels, and a view of a file with them.
\<close>

definition exFont :: FontMetrics where
  "exFont = \<lparr>twc_calculate = (\<lambda>t. 7 * int (length t)), fm_width = (\<lambda>c. 7), fm_ascent = 9,
             effectiveLineSpacing = 12\<rparr>"

definition exMargins :: QMargins where
  "exMargins = \<lparr>margin_left = 4, margin_top = 4, margin_right = 4, margin_bottom = 4\<rparr>"

definition exView :: "File \<Rightarrow> SourceWidgetView" where
  "exView f = \<lparr>m_margins = exMargins, m_file = Some f, m_selection = emptyRange,
      m_syntaxColoring = [], m_maxLineLength = 0, v_font = exFont\<rparr>"

text \<open>
  A font whose characters are \<open>2 ^ 30\<close> pixels wide, and one whose space is
  \<open>2 ^ 28\<close> pixels wide, so that a tab stop is \<open>2 ^ 31\<close> pixels.
\<close>

definition wideFont :: FontMetrics where
  "wideFont = \<lparr>twc_calculate = (\<lambda>t. 1073741824 * int (length t)), fm_width = (\<lambda>c. 7),
               fm_ascent = 9, effectiveLineSpacing = 12\<rparr>"

definition wideSpaceFont :: FontMetrics where
  "wideSpaceFont = \<lparr>twc_calculate = (\<lambda>t. 7 * int (length t)), fm_width = (\<lambda>c. 268435456),
                    fm_ascent = 9, effectiveLineSpacing = 12\<rparr>"

text \<open>A line of the letters \<^verbatim>\<open>abc\<close>.\<close>

definition abcFile :: File where
  "abcFile = \<lparr>content = [0x61, 0x62, 0x63], m_lines = [(0, 3)]\<rparr>"

text \<open>A line of a surrogate pair (U+1F600) and an \<^verbatim>\<open>a\<close>.\<close>

definition pairFile :: File where
  "pairFile = \<lparr>content = [0xD83D, 0xDE00, 0x61], m_lines = [(0, 3)]\<rparr>"

text \<open>A line of an \<^verbatim>\<open>a\<close> and a high surrogate with no low surrogate after it.\<close>

definition loneFile :: File where
  "loneFile = \<lparr>content = [0x61, 0xD83D], m_lines = [(0, 2)]\<rparr>"

text \<open>Two lines: tab, \<^verbatim>\<open>a\<close>, tab; and \<^verbatim>\<open>b\<close>.\<close>

definition tabFile :: File where
  "tabFile = \<lparr>content = [0x09, 0x61, 0x09, 0x0A, 0x62], m_lines = [(0, 3), (4, 1)]\<rparr>"

text \<open>A file of five lines of one letter each, \<^verbatim>\<open>a\<close> to \<^verbatim>\<open>e\<close>.\<close>

definition fiveLineFile :: File where
  "fiveLineFile = \<lparr>content = [0x61, 0x0A, 0x62, 0x0A, 0x63, 0x0A, 0x64, 0x0A, 0x65],
                    m_lines = [(0, 1), (2, 1), (4, 1), (6, 1), (8, 1)]\<rparr>"

text \<open>A file of one line, \<^verbatim>\<open>int foo_bar;\<close>.\<close>

definition wordExample :: File where
  "wordExample = \<lparr>content = [0x69, 0x6E, 0x74, 0x20, 0x66, 0x6F, 0x6F, 0x5F, 0x62, 0x61, 0x72, 0x3B],
                   m_lines = [(0, 12)]\<rparr>"

text \<open>
  A project whose index reports a given list of symbols at every location and defines every
  symbol at the same reference, and a view of \<^verbatim>\<open>int foo_bar;\<close> with the word
  \<^verbatim>\<open>foo_bar\<close> selected.
\<close>

definition exRef :: Ref where
  "exRef = \<lparr>symbolID = 7, ref_line = 1, ref_column = 5, ref_endColumn = 12\<rparr>"

definition exProject :: "string list \<Rightarrow> Project" where
  "exProject symbols =
     \<lparr>getSymbolTypeID = (\<lambda>n. kInvalidID), querySymbolType = (\<lambda>s. kInvalidID),
      queryFileRefs = (\<lambda>f. []), querySymbolsAtLocation = (\<lambda>f l c. symbols),
      findSingleDefinitionOfSymbol = (\<lambda>s. exRef)\<rparr>"

definition selectedView :: SourceWidgetView where
  "selectedView = (exView wordExample)\<lparr>m_selection := mkRange (mkLocation 0 4) (mkLocation 0 11)\<rparr>"



section \<open>Properties of the word boundary resolver\<close>

lemma qat_Inr: "0 \<le> i \<Longrightarrow> i < int (length s) \<Longrightarrow> qat s i = Inr (s ! nat i)"
  by (simp add: qat_def)

lemma findWordLeft_ok:
  "0 \<le> x \<Longrightarrow> x < int (length s) \<Longrightarrow>
   \<exists>x1. findWordLeft s x = Inr x1 \<and> 0 \<le> x1 \<and> x1 \<le> x \<and>
     (\<forall>i. x1 \<le> i \<and> i < x \<longrightarrow> isIdentifierChar (s ! nat i)) \<and>
     (x1 = 0 \<or> \<not> isIdentifierChar (s ! nat (x1 - 1)))"
proof (induction s x rule: findWordLeft.induct)
  case (1 s x1)
  show ?case
  proof (cases "x1 - 1 \<ge> 0")
    case False
    with "1.prems" have "x1 = 0" by simp
    then show ?thesis by (subst findWordLeft.simps) auto
  next
    case True
    with "1.prems" have q: "qat s (x1 - 1) = Inr (s ! nat (x1 - 1))"
      by (simp add: qat_Inr)
    show ?thesis
    proof (cases "isIdentifierChar (s ! nat (x1 - 1))")
      case False
      with True q show ?thesis by (subst findWordLeft.simps) auto
    next
      case id: True
      from "1.IH"[OF True q id] True "1.prems"
      obtain y where y: "findWordLeft s (x1 - 1) = Inr y" "0 \<le> y" "y \<le> x1 - 1"
        "\<forall>i. y \<le> i \<and> i < x1 - 1 \<longrightarrow> isIdentifierChar (s ! nat i)"
        "y = 0 \<or> \<not> isIdentifierChar (s ! nat (y - 1))"
        by auto
      have all: "\<forall>i. y \<le> i \<and> i < x1 \<longrightarrow> isIdentifierChar (s ! nat i)"
      proof (intro allI impI)
        fix i assume "y \<le> i \<and> i < x1"
        then have "i < x1 - 1 \<or> i = x1 - 1" by arith
        with y(4) id \<open>y \<le> i \<and> i < x1\<close> show "isIdentifierChar (s ! nat i)" by auto
      qed
      have "findWordLeft s x1 = Inr y"
        using True q id y(1) by (subst findWordLeft.simps) simp
      with y all show ?thesis by auto
    qed
  qed
qed

lemma findWordRight_ok:
  "0 \<le> x \<Longrightarrow> x < int (length s) \<Longrightarrow>
   \<exists>x2. findWordRight s x = Inr x2 \<and> x \<le> x2 \<and> x2 < int (length s) \<and>
     (\<forall>i. x < i \<and> i \<le> x2 \<longrightarrow> isIdentifierChar (s ! nat i)) \<and>
     (x2 + 1 = int (length s) \<or> \<not> isIdentifierChar (s ! nat (x2 + 1)))"
proof (induction s x rule: findWordRight.induct)
  case (1 s x2)
  show ?case
  proof (cases "x2 + 1 < int (length s)")
    case False
    with "1.prems" have "x2 + 1 = int (length s)" by simp
    with "1.prems" show ?thesis by (subst findWordRight.simps) auto
  next
    case True
    with "1.prems" have q: "qat s (x2 + 1) = Inr (s ! nat (x2 + 1))"
      by (simp add: qat_Inr)
    show ?thesis
    proof (cases "isIdentifierChar (s ! nat (x2 + 1))")
      case False
      with True q "1.prems" show ?thesis by (subst findWordRight.simps) auto
    next
      case id: True
      from "1.IH"[OF True q id] True "1.prems"
      obtain y where y: "findWordRight s (x2 + 1) = Inr y" "x2 + 1 \<le> y" "y < int (length s)"
        "\<forall>i. x2 + 1 < i \<and> i \<le> y \<longrightarrow> isIdentifierChar (s ! nat i)"
        "y + 1 = int (length s) \<or> \<not> isIdentifierChar (s ! nat (y + 1))"
        by auto
      have all: "\<forall>i. x2 < i \<and> i \<le> y \<longrightarrow> isIdentifierChar (s ! nat i)"
      proof (intro allI impI)
        fix i assume a: "x2 < i \<and> i \<le> y"
        then have "x2 + 1 < i \<or> i = x2 + 1" by arith
        with y(4) id a show "isIdentifierChar (s ! nat i)" by auto
      qed
      have "findWordRight s x2 = Inr y"
        using True q id y(1) by (subst findWordRight.simps) simp
      with y all show ?thesis by auto
    qed
  qed
qed

lemma file_wf_line:
  assumes "file_wf f" "0 \<le> ln" "ln < lineCount f"
  shows "\<exists>s. lineContent f ln = Inr s \<and> lineLength f ln = Inr (int (length s)) \<and>
             lineStart f ln = Inr (fst (m_lines f ! nat ln)) \<and>
             0 \<le> fst (m_lines f ! nat ln) \<and>
             fst (m_lines f ! nat ln) + int (length s) \<le> int (length (content f))"
proof -
  from assms(2,3) have n: "nat ln < length (m_lines f)"
    by (simp add: lineCount_def)
  obtain a b where ab: "m_lines f ! nat ln = (a, b)" by (cases "m_lines f ! nat ln")
  from assms(1) n ab have "0 \<le> a \<and> 0 \<le> b \<and> a + b \<le> int (length (content f))"
    unfolding file_wf_def list_all_length by fastforce
  then show ?thesis
    using assms(2,3) ab by (simp add: lineContent_def lineLength_def lineStart_def) linarith
qed

lemma doesPointAtChar_line:
  assumes "file_wf f" "doesPointAtChar pt f"
  shows "\<exists>s. lineContent f (line pt) = Inr s \<and> lineLength f (line pt) = Inr (int (length s)) \<and>
             0 \<le> column pt \<and> column pt < int (length s)"
proof -
  from assms(2) have r: "0 \<le> line pt" "line pt < lineCount f" "0 \<le> column pt"
    by (simp_all add: doesPointAtChar_def)
  from file_wf_line[OF assms(1) r(1,2)] obtain s where
    s: "lineContent f (line pt) = Inr s" "lineLength f (line pt) = Inr (int (length s))" by blast
  with assms(2) r show ?thesis by (simp add: doesPointAtChar_def)
qed

lemma findWordAtLocation_at_char:
  assumes "file_wf f" and p: "doesPointAtChar pt f"
  shows "\<exists>s c. lineContent f (line pt) = Inr s \<and> lineLength f (line pt) = Inr (int (length s)) \<and>
               qat s (column pt) = Inr c \<and>
               (\<not> isIdentifierChar c \<longrightarrow>
                  findWordAtLocation (Some f) pt =
                    Inr (mkRange pt (mkLocation (line pt) (column pt + 1)))) \<and>
               (isIdentifierChar c \<longrightarrow>
                  (\<exists>x1 x2. findWordAtLocation (Some f) pt =
                       Inr (mkRange (mkLocation (line pt) x1) (mkLocation (line pt) (x2 + 1))) \<and>
                     0 \<le> x1 \<and> x1 \<le> column pt \<and> column pt \<le> x2 \<and> x2 < int (length s) \<and>
                     (\<forall>i. x1 \<le> i \<and> i \<le> x2 \<longrightarrow> isIdentifierChar (s ! nat i)) \<and>
                     (x1 = 0 \<or> \<not> isIdentifierChar (s ! nat (x1 - 1))) \<and>
                     (x2 + 1 = int (length s) \<or> \<not> isIdentifierChar (s ! nat (x2 + 1)))))"
proof -
  from doesPointAtChar_line[OF assms] obtain s where
    s: "lineContent f (line pt) = Inr s" "0 \<le> column pt" "column pt < int (length s)"
    and len: "lineLength f (line pt) = Inr (int (length s))" by blast
  let ?c = "s ! nat (column pt)"
  have q: "qat s (column pt) = Inr ?c" using s by (simp add: qat_Inr)
  have a: "\<not> isIdentifierChar ?c \<longrightarrow>
           findWordAtLocation (Some f) pt = Inr (mkRange pt (mkLocation (line pt) (column pt + 1)))"
    using p s q by (simp add: findWordAtLocation_def)
  have b: "isIdentifierChar ?c \<longrightarrow>
        (\<exists>x1 x2. findWordAtLocation (Some f) pt =
             Inr (mkRange (mkLocation (line pt) x1) (mkLocation (line pt) (x2 + 1))) \<and>
           0 \<le> x1 \<and> x1 \<le> column pt \<and> column pt \<le> x2 \<and> x2 < int (length s) \<and>
           (\<forall>i. x1 \<le> i \<and> i \<le> x2 \<longrightarrow> isIdentifierChar (s ! nat i)) \<and>
           (x1 = 0 \<or> \<not> isIdentifierChar (s ! nat (x1 - 1))) \<and>
           (x2 + 1 = int (length s) \<or> \<not> isIdentifierChar (s ! nat (x2 + 1))))"
  proof
    assume id: "isIdentifierChar ?c"
    from findWordLeft_ok[OF s(2,3)] obtain x1 where
      x1: "findWordLeft s (column pt) = Inr x1" "0 \<le> x1" "x1 \<le> column pt"
          "\<forall>i. x1 \<le> i \<and> i < column pt \<longrightarrow> isIdentifierChar (s ! nat i)"
          "x1 = 0 \<or> \<not> isIdentifierChar (s ! nat (x1 - 1))" by blast
    from findWordRight_ok[OF s(2,3)] obtain x2 where
      x2: "findWordRight s (column pt) = Inr x2" "column pt \<le> x2" "x2 < int (length s)"
          "\<forall>i. column pt < i \<and> i \<le> x2 \<longrightarrow> isIdentifierChar (s ! nat i)"
          "x2 + 1 = int (length s) \<or> \<not> isIdentifierChar (s ! nat (x2 + 1))" by blast
    have r: "findWordAtLocation (Some f) pt =
               Inr (mkRange (mkLocation (line pt) x1) (mkLocation (line pt) (x2 + 1)))"
      using p s q id x1(1) x2(1) by (simp add: findWordAtLocation_def)
    have all: "\<forall>i. x1 \<le> i \<and> i \<le> x2 \<longrightarrow> isIdentifierChar (s ! nat i)"
    proof (intro allI impI)
      fix i assume i: "x1 \<le> i \<and> i \<le> x2"
      then consider "i < column pt" | "i = column pt" | "column pt < i" by linarith
      then show "isIdentifierChar (s ! nat i)"
        using i x1(4) x2(4) id by cases auto
    qed
    from r x1 x2 all show "\<exists>x1 x2. findWordAtLocation (Some f) pt =
             Inr (mkRange (mkLocation (line pt) x1) (mkLocation (line pt) (x2 + 1))) \<and>
           0 \<le> x1 \<and> x1 \<le> column pt \<and> column pt \<le> x2 \<and> x2 < int (length s) \<and>
           (\<forall>i. x1 \<le> i \<and> i \<le> x2 \<longrightarrow> isIdentifierChar (s ! nat i)) \<and>
           (x1 = 0 \<or> \<not> isIdentifierChar (s ! nat (x1 - 1))) \<and>
           (x2 + 1 = int (length s) \<or> \<not> isIdentifierChar (s ! nat (x2 + 1)))"
      by blast
  qed
  from s(1) len q a b show ?thesis by blast
qed

text \<open>
  Claim C5.  On a location that does not point at a character \<open>findWordAtLocation\<close>
  returns an empty range.  On a location that points at a character that is no identifier
  character (an ASCII letter, digit or underscore) it returns the range of that single
  character.  Otherwise it returns the range from \<open>x1\<close> to \<open>x2 + 1\<close> on the
  location's line, where every character from \<open>x1\<close> to \<open>x2\<close> is an identifier
  character, the location lies in between, and the run cannot be extended: \<open>x1\<close> is
  the start of the line or follows a character that is no identifier character, and
  \<open>x2\<close> is the last character of the line or precedes one that is no identifier
  character.  On the line \<^verbatim>\<open>int foo_bar;\<close> column 4 gives the range from 4 to 11 and
  column 11 gives the range from 11 to 12.
\<close>

theorem findWordAtLocation_word_boundary:
  assumes "file_wf f"
  shows "(\<not> doesPointAtChar pt f \<longrightarrow>
            findWordAtLocation (Some f) pt = Inr emptyRange \<and> isEmpty emptyRange) \<and>
         (doesPointAtChar pt f \<longrightarrow>
            (\<exists>s c. lineContent f (line pt) = Inr s \<and> qat s (column pt) = Inr c \<and>
               (\<not> isIdentifierChar c \<longrightarrow>
                  findWordAtLocation (Some f) pt =
                    Inr (mkRange pt (mkLocation (line pt) (column pt + 1)))) \<and>
               (isIdentifierChar c \<longrightarrow>
                  (\<exists>x1 x2. findWordAtLocation (Some f) pt =
                       Inr (mkRange (mkLocation (line pt) x1) (mkLocation (line pt) (x2 + 1))) \<and>
                     0 \<le> x1 \<and> x1 \<le> column pt \<and> column pt \<le> x2 \<and> x2 < int (length s) \<and>
                     (\<forall>i. x1 \<le> i \<and> i \<le> x2 \<longrightarrow> isIdentifierChar (s ! nat i)) \<and>
                     (x1 = 0 \<or> \<not> isIdentifierChar (s ! nat (x1 - 1))) \<and>
                     (x2 + 1 = int (length s) \<or> \<not> isIdentifierChar (s ! nat (x2 + 1))))))) \<and>
         findWordAtLocation (Some wordExample) (mkLocation 0 4) =
           Inr (mkRange (mkLocation 0 4) (mkLocation 0 11)) \<and>
         findWordAtLocation (Some wordExample) (mkLocation 0 11) =
           Inr (mkRange (mkLocation 0 11) (mkLocation 0 12))"
proof (intro conjI impI)
  assume "\<not> doesPointAtChar pt f"
  then show "findWordAtLocation (Some f) pt = Inr emptyRange"
    by (simp add: findWordAtLocation_def)
next
  show "isEmpty emptyRange" by (simp add: isEmpty_def emptyRange_def mkRange_def)
next
  assume p: "doesPointAtChar pt f"
  from findWordAtLocation_at_char[OF assms p]
  show "\<exists>s c. lineContent f (line pt) = Inr s \<and> qat s (column pt) = Inr c \<and>
               (\<not> isIdentifierChar c \<longrightarrow>
                  findWordAtLocation (Some f) pt =
                    Inr (mkRange pt (mkLocation (line pt) (column pt + 1)))) \<and>
               (isIdentifierChar c \<longrightarrow>
                  (\<exists>x1 x2. findWordAtLocation (Some f) pt =
                       Inr (mkRange (mkLocation (line pt) x1) (mkLocation (line pt) (x2 + 1))) \<and>
                     0 \<le> x1 \<and> x1 \<le> column pt \<and> column pt \<le> x2 \<and> x2 < int (length s) \<and>
                     (\<forall>i. x1 \<le> i \<and> i \<le> x2 \<longrightarrow> isIdentifierChar (s ! nat i)) \<and>
                     (x1 = 0 \<or> \<not> isIdentifierChar (s ! nat (x1 - 1))) \<and>
                     (x2 + 1 = int (length s) \<or> \<not> isIdentifierChar (s ! nat (x2 + 1)))))"
    by blast
next
  show "findWordAtLocation (Some wordExample) (mkLocation 0 4) =
           Inr (mkRange (mkLocation 0 4) (mkLocation 0 11))"
    by code_simp
next
  show "findWordAtLocation (Some wordExample) (mkLocation 0 11) =
           Inr (mkRange (mkLocation 0 11) (mkLocation 0 12))"
    by code_simp
qed

theorem findWordAtLocation_word_boundary_witness:
  "file_wf wordExample \<and> doesPointAtChar (mkLocation 0 5) wordExample \<and>
   findWordAtLocation (Some wordExample) (mkLocation 0 5) =
      Inr (mkRange (mkLocation 0 4) (mkLocation 0 11))"
proof -
  have wf: "file_wf wordExample" by code_simp
  have p: "doesPointAtChar (mkLocation 0 5) wordExample" by code_simp
  have r: "findWordAtLocation (Some wordExample) (mkLocation 0 5) =
      Inr (mkRange (mkLocation 0 4) (mkLocation 0 11))" by code_simp
  from wf p r findWordAtLocation_word_boundary[OF wf, of "mkLocation 0 5"]
  show ?thesis by simp
qed

text \<open>
  Claim C10.  On a location that points at a character of a well-formed file,
  \<open>findWordAtLocation\<close> returns a range that is not empty, whose two ends are on the
  location's line, that contains the location's column, and whose columns lie between 0
  and the length of the line.
\<close>

theorem findWordAtLocation_range_bounds:
  assumes "file_wf f" and "doesPointAtChar pt f"
  shows "\<exists>r n. findWordAtLocation (Some f) pt = Inr r \<and> lineLength f (line pt) = Inr n \<and>
           \<not> isEmpty r \<and>
           line (r_start r) = line pt \<and> line (r_end r) = line pt \<and>
           column (r_start r) \<le> column pt \<and> column pt < column (r_end r) \<and>
           0 \<le> column (r_start r) \<and> column (r_end r) \<le> n"
proof -
  from findWordAtLocation_at_char[OF assms] obtain s c where
    s: "lineContent f (line pt) = Inr s" "lineLength f (line pt) = Inr (int (length s))"
       "qat s (column pt) = Inr c"
    and a: "\<not> isIdentifierChar c \<Longrightarrow>
              findWordAtLocation (Some f) pt = Inr (mkRange pt (mkLocation (line pt) (column pt + 1)))"
    and b: "isIdentifierChar c \<Longrightarrow>
              \<exists>x1 x2. findWordAtLocation (Some f) pt =
                  Inr (mkRange (mkLocation (line pt) x1) (mkLocation (line pt) (x2 + 1))) \<and>
                0 \<le> x1 \<and> x1 \<le> column pt \<and> column pt \<le> x2 \<and> x2 < int (length s)"
    by blast
  from s(3) have col: "0 \<le> column pt" "column pt < int (length s)"
    by (auto simp: qat_def split: if_splits)
  show ?thesis
  proof (cases "isIdentifierChar c")
    case False
    have ne: "pt \<noteq> mkLocation (line pt) (column pt + 1)"
    proof
      assume "pt = mkLocation (line pt) (column pt + 1)"
      then have "column pt = column (mkLocation (line pt) (column pt + 1))" by simp
      then show False by (simp add: mkLocation_def)
    qed
    from a[OF False] s(2) col ne show ?thesis
      by (simp add: mkRange_def isEmpty_def) (simp add: mkLocation_def)
  next
    case True
    from b[OF True] obtain x1 x2 where
      r: "findWordAtLocation (Some f) pt =
            Inr (mkRange (mkLocation (line pt) x1) (mkLocation (line pt) (x2 + 1)))"
      and x: "0 \<le> x1" "x1 \<le> column pt" "column pt \<le> x2" "x2 < int (length s)" by blast
    from r x s(2) show ?thesis
      by (simp add: mkRange_def mkLocation_def isEmpty_def)
  qed
qed

theorem findWordAtLocation_range_bounds_witness:
  "file_wf wordExample \<and> doesPointAtChar (mkLocation 0 9) wordExample \<and>
   findWordAtLocation (Some wordExample) (mkLocation 0 9) =
      Inr (mkRange (mkLocation 0 4) (mkLocation 0 11)) \<and>
   lineLength wordExample 0 = Inr 12"
proof -
  have wf: "file_wf wordExample" by code_simp
  have p: "doesPointAtChar (mkLocation 0 9) wordExample" by code_simp
  have r: "findWordAtLocation (Some wordExample) (mkLocation 0 9) =
      Inr (mkRange (mkLocation 0 4) (mkLocation 0 11))" by code_simp
  have n: "lineLength wordExample 0 = Inr 12" by code_simp
  from wf p r n findWordAtLocation_range_bounds[OF wf p]
  show ?thesis by simp
qed

section \<open>Properties of the line layout cursor\<close>

lemma wrap32_id: "- (2 ^ 31) \<le> x \<Longrightarrow> x < 2 ^ 31 \<Longrightarrow> wrap32 x = x"
  by (simp add: wrap32_def)

lemma wrap32_nonneg: "0 \<le> x \<Longrightarrow> x < 2 ^ 31 \<Longrightarrow> wrap32 x = x"
  by (simp add: wrap32_def)

lemma cdiv_nonneg: "0 \<le> a \<Longrightarrow> 0 < b \<Longrightarrow> cdiv a b = Inr (a div b)"
  by (simp add: cdiv_def sgn_if)

lemma tabChar_not_surrogate: "\<not> isHighSurrogate tabChar"
  by (simp add: isHighSurrogate_def tabChar_def)

lemma advanceChar_fields:
  assumes "advanceChar lay = Inr lay'"
  shows "m_fm lay' = m_fm lay" and "m_tabStopPx lay' = m_tabStopPx lay"
    and "m_lineLeftMargin lay' = m_lineLeftMargin lay"
    and "m_lineStartIndex lay' = m_lineStartIndex lay"
    and "m_charLeft lay' = add32 (m_charLeft lay) (m_charWidth lay)"
  using assms
  by (auto simp: advanceChar_def Let_def split: sum.splits if_splits)

lemma advanceChar_pair:
  assumes "advanceChar lay = Inr lay'"
  shows "\<exists>ch. qat (m_lineContent lay) (nextCharIndex lay) = Inr ch \<and>
           m_charIsSurrogatePair lay' = isHighSurrogate ch"
  using assms
  by (auto simp: advanceChar_def Let_def split: sum.splits if_splits)

lemma tab_width:
  fixes L T :: int
  assumes "0 \<le> L" "0 < T"
  shows "0 < (L + T) div T * T - L" and "(L + T) div T * T - L \<le> T"
    and "(L + ((L + T) div T * T - L)) mod T = 0"
proof -
  have d: "(L + T) div T = L div T + 1" using assms by (simp add: div_add_self2)
  have e: "(L div T + 1) * T - L = T - L mod T"
    by (simp add: algebra_simps minus_mult_div_eq_mod [symmetric])
  have m: "0 \<le> L mod T" "L mod T < T" using assms by simp_all
  show "0 < (L + T) div T * T - L" using d e m by simp
  show "(L + T) div T * T - L \<le> T" using d e m by simp
  show "(L + ((L + T) div T * T - L)) mod T = 0" by simp
qed

lemma advanceChar_tab:
  assumes q: "qat (m_lineContent lay) (nextCharIndex lay) = Inr tabChar"
    and T: "0 < m_tabStopPx lay" and L: "0 \<le> m_charLeft lay + m_charWidth lay"
    and B: "m_charLeft lay + m_charWidth lay + m_tabStopPx lay < 2 ^ 31"
  shows "\<exists>lay'. advanceChar lay = Inr lay' \<and> m_charText lay' = [] \<and>
           0 < m_charWidth lay' \<and> m_charWidth lay' \<le> m_tabStopPx lay \<and>
           m_charLeft lay' = m_charLeft lay + m_charWidth lay \<and>
           (m_charLeft lay' + m_charWidth lay') mod m_tabStopPx lay = 0"
proof -
  let ?L = "m_charLeft lay + m_charWidth lay" and ?T = "m_tabStopPx lay"
  let ?q = "(?L + ?T) div ?T"
  have l: "add32 (m_charLeft lay) (m_charWidth lay) = ?L"
    using L B T by (simp add: add32_def wrap32_id)
  have s: "add32 ?L ?T = ?L + ?T"
    using L B T by (simp add: add32_def wrap32_id)
  have c: "cdiv (?L + ?T) ?T = Inr ?q"
    using T L by (intro cdiv_nonneg) simp_all
  note w = tab_width[OF L T]
  have m: "mul32 ?q ?T = ?q * ?T"
  proof -
    have "0 \<le> ?q * ?T" using w(1) L by linarith
    moreover have "?q * ?T < 2 ^ 31" using w(2) B by linarith
    ultimately show ?thesis unfolding mul32_def by (rule wrap32_nonneg)
  qed
  have d: "sub32 (?q * ?T) ?L = ?q * ?T - ?L"
  proof -
    have "0 \<le> ?q * ?T - ?L" using w(1) by linarith
    moreover have "?q * ?T - ?L < 2 ^ 31" using w(2) B L by linarith
    ultimately show ?thesis unfolding sub32_def by (rule wrap32_nonneg)
  qed
  show ?thesis
    using q l s c m d tabChar_not_surrogate w
    by (simp add: advanceChar_def Let_def)
qed

lemma layInv_sum:
  assumes "layInv W lay"
  shows "0 \<le> W" and "0 \<le> m_charLeft lay + m_charWidth lay"
    and "m_charLeft lay + m_charWidth lay \<le> (m_charIndex lay + 1) * W"
    and "(m_charIndex lay + 1) * W \<le> int (length (m_lineContent lay)) * W"
    and "m_charLeft lay + m_charWidth lay < 2 ^ 31"
    and "add32 (m_charLeft lay) (m_charWidth lay) = m_charLeft lay + m_charWidth lay"
proof -
  from assms have t: "0 \<le> twc_calculate (m_fm lay) []" "twc_calculate (m_fm lay) [] \<le> W"
    by (simp_all add: layInv_def)
  then show W: "0 \<le> W" by simp
  from assms show n: "0 \<le> m_charLeft lay + m_charWidth lay" by (simp add: layInv_def)
  from assms show b: "m_charLeft lay + m_charWidth lay \<le> (m_charIndex lay + 1) * W"
    by (simp add: layInv_def)
  from assms have "m_charIndex lay + 1 \<le> int (length (m_lineContent lay))"
    by (simp add: layInv_def)
  then show c: "(m_charIndex lay + 1) * W \<le> int (length (m_lineContent lay)) * W"
    using W by (rule mult_right_mono)
  from assms have "int (length (m_lineContent lay)) * W < 2 ^ 31" by (simp add: layInv_def)
  with b c show u: "m_charLeft lay + m_charWidth lay < 2 ^ 31" by linarith
  from n u show "add32 (m_charLeft lay) (m_charWidth lay) = m_charLeft lay + m_charWidth lay"
    by (simp add: add32_def wrap32_id)
qed

lemma layInv_edges:
  assumes "layInv W lay"
  shows "charLeft lay = m_lineLeftMargin lay + m_charLeft lay"
    and "rightEdge lay = m_lineLeftMargin lay + m_charLeft lay + m_charWidth lay"
    and "rightEdge lay = charLeft lay + charWidth lay"
proof -
  note s = layInv_sum[OF assms]
  from assms have g: "- (2 ^ 31) \<le> m_lineLeftMargin lay"
    "m_lineLeftMargin lay + int (length (m_lineContent lay)) * W < 2 ^ 31"
    "0 \<le> m_charLeft lay" "0 \<le> m_charWidth lay" by (simp_all add: layInv_def)
  have u: "m_lineLeftMargin lay + (m_charLeft lay + m_charWidth lay) < 2 ^ 31"
    using s(3,4) g(2) by linarith
  show 1: "charLeft lay = m_lineLeftMargin lay + m_charLeft lay"
    using g u by (simp add: charLeft_def add32_def wrap32_id)
  show 2: "rightEdge lay = m_lineLeftMargin lay + m_charLeft lay + m_charWidth lay"
    using 1 g u by (simp add: rightEdge_def charWidth_def add32_def wrap32_id)
  from 1 2 show "rightEdge lay = charLeft lay + charWidth lay" by (simp add: charWidth_def)
qed

lemma layInv_advance:
  assumes inv: "layInv W lay" and a: "advanceChar lay = Inr lay'"
  shows "layInv W lay'" and "m_charLeft lay' = m_charLeft lay + m_charWidth lay"
proof -
  let ?L = "m_charLeft lay + m_charWidth lay" and ?T = "m_tabStopPx lay"
  let ?i = "nextCharIndex lay" and ?n = "int (length (m_lineContent lay))"
  note s = layInv_sum[OF inv] and p = advanceChar_progress[OF a] and fl = advanceChar_fields[OF a]
  from inv have T: "0 < ?T" "?T \<le> W" and nW: "?n * W < 2 ^ 31"
    and tw: "\<forall>t. 0 \<le> twc_calculate (m_fm lay) t"
      "\<forall>t. length t \<le> 2 \<longrightarrow> twc_calculate (m_fm lay) t \<le> W"
    and i: "- 1 \<le> m_charIndex lay"
    and g: "- (2 ^ 31) \<le> m_lineLeftMargin lay" "m_lineLeftMargin lay + ?n * W < 2 ^ 31"
    by (simp_all add: layInv_def)
  from a obtain ch where q: "qat (m_lineContent lay) ?i = Inr ch"
    by (auto simp: advanceChar_def Let_def split: sum.splits)
  then have i0: "0 \<le> ?i" and i1: "?i < ?n" by (auto simp: qat_def split: if_splits)
  have "m_charIndex lay + 1 \<le> ?i" by (simp add: nextCharIndex_def)
  then have "(m_charIndex lay + 1) * W \<le> ?i * W" using s(1) by (rule mult_right_mono)
  with s(3) have Li: "?L \<le> ?i * W" by linarith
  from i1 have "?i + 1 \<le> ?n" by simp
  then have "(?i + 1) * W \<le> ?n * W" using s(1) by (rule mult_right_mono)
  then have iW: "?i * W + W \<le> ?n * W" by (simp add: algebra_simps)
  from fl(5) s(6) show left: "m_charLeft lay' = ?L" by simp
  have w: "0 \<le> m_charWidth lay' \<and> m_charWidth lay' \<le> W"
  proof (cases "ch = tabChar")
    case True
    have B: "?L + ?T < 2 ^ 31" using Li iW T(2) nW by linarith
    from advanceChar_tab[OF _ T(1) s(2) B] q True a T(2) show ?thesis by auto
  next
    case False
    with a q tw show ?thesis
      by (auto simp: advanceChar_def Let_def split: sum.splits if_splits)
  qed
  have "m_charLeft lay' + m_charWidth lay' \<le> ?i * W + W" using left Li w by linarith
  then have b: "m_charLeft lay' + m_charWidth lay' \<le> (m_charIndex lay' + 1) * W"
    using p(2) by (simp add: algebra_simps)
  show "layInv W lay'"
    using inv b w left s(2) p(1,2) fl(1,2,3) i0 i1
    by (simp add: layInv_def)
qed

lemma init_fields:
  assumes "LineLayout_init fm margins f ln = Inr lay"
  shows "m_charLeft lay = 0" and "m_charWidth lay = 0" and "m_charIndex lay = - 1"
    and "m_lineLeftMargin lay = margin_left margins" and "\<not> m_charIsSurrogatePair lay"
    and "lineContent f ln = Inr (m_lineContent lay)"
    and "lineStart f ln = Inr (m_lineStartIndex lay)"
    and "m_fm lay = fm" and "m_tabStopPx lay = mul32 (fm_width fm spaceChar) kTabStopSize"
  using assms
  by (auto simp: LineLayout_init_def split: sum.splits)

lemma layInv_init:
  assumes fo: "font_ok fm" and fw: "fontWithin fm W"
    and i: "LineLayout_init fm margins f ln = Inr lay"
    and lf: "lineFits W margins (m_lineContent lay)"
  shows "layInv W lay"
proof -
  note fl = init_fields[OF i]
  from fo fw have t: "0 < fm_width fm spaceChar * kTabStopSize"
    "fm_width fm spaceChar * kTabStopSize \<le> W" "W < 2 ^ 31"
    by (simp_all add: font_ok_def fontWithin_def kTabStopSize_def)
  then have "mul32 (fm_width fm spaceChar) kTabStopSize = fm_width fm spaceChar * kTabStopSize"
    by (simp add: mul32_def wrap32_id)
  with t fl fo fw lf show ?thesis
    by (simp add: layInv_def font_ok_def fontWithin_def lineFits_def)
qed

lemma layoutChars_nth:
  "layoutChars lay = Inr chars \<Longrightarrow> k < length chars \<Longrightarrow>
     hasMoreChars ((lay # chars) ! k) \<and> advanceChar ((lay # chars) ! k) = Inr (chars ! k)"
proof (induction lay arbitrary: chars k rule: layoutChars.induct)
  case (1 lay)
  from "1.prems" have more: "hasMoreChars lay"
    by (subst (asm) layoutChars.simps) (auto split: if_splits)
  with "1.prems"(1) obtain lay' rest where
    a: "advanceChar lay = Inr lay'" and r: "layoutChars lay' = Inr rest" and c: "chars = lay' # rest"
    by (subst (asm) layoutChars.simps) (auto split: sum.splits)
  show ?case
  proof (cases k)
    case 0
    with more a c show ?thesis by simp
  next
    case (Suc j)
    with "1.prems"(2) c have "j < length rest" by simp
    from "1.IH"[OF more a r this] Suc c show ?thesis by simp
  qed
qed

lemma layoutChars_layInv:
  "layoutChars lay = Inr chars \<Longrightarrow> layInv W lay \<Longrightarrow> k < length chars \<Longrightarrow> layInv W (chars ! k)"
proof (induction k)
  case 0
  with layoutChars_nth[of lay chars 0] layInv_advance(1) show ?case by auto
next
  case (Suc k)
  then have "layInv W (chars ! k)" by simp
  moreover from layoutChars_nth[OF Suc.prems(1,3)] have "advanceChar (chars ! k) = Inr (chars ! Suc k)"
    by simp
  ultimately show ?case by (rule layInv_advance(1))
qed

lemma advanceChar_total:
  assumes inv: "layInv W lay" and nd: "noDanglingSurrogate (m_lineContent lay)" and more: "hasMoreChars lay"
  shows "\<exists>lay'. advanceChar lay = Inr lay'"
proof -
  let ?s = "m_lineContent lay" and ?i = "nextCharIndex lay"
  let ?L = "m_charLeft lay + m_charWidth lay" and ?T = "m_tabStopPx lay"
  note s = layInv_sum[OF inv]
  from inv have T: "0 < ?T" "?T \<le> W" and nW: "int (length ?s) * W < 2 ^ 31"
    and i0: "0 \<le> ?i" by (simp_all add: layInv_def nextCharIndex_def)
  from more have i1: "?i < int (length ?s)" by (simp add: hasMoreChars_def)
  from i0 i1 have q: "qat ?s ?i = Inr (?s ! nat ?i)" by (simp add: qat_def)
  show ?thesis
  proof (cases "isHighSurrogate (?s ! nat ?i)")
    case False
    show ?thesis
    proof (cases "?s ! nat ?i = tabChar")
      case True
      have "m_charIndex lay + 1 \<le> ?i" by (simp add: nextCharIndex_def)
      then have "(m_charIndex lay + 1) * W \<le> ?i * W" using s(1) by (rule mult_right_mono)
      moreover from i1 have "?i + 1 \<le> int (length ?s)" by simp
      then have "(?i + 1) * W \<le> int (length ?s) * W" using s(1) by (rule mult_right_mono)
      then have "?i * W + W \<le> int (length ?s) * W" by (simp add: algebra_simps)
      ultimately have B: "?L + ?T < 2 ^ 31" using s(3) T(2) nW by linarith
      from advanceChar_tab[OF _ T(1) s(2) B] q True show ?thesis by auto
    next
      case nt: False
      with q False show ?thesis by (simp add: advanceChar_def Let_def)
    qed
  next
    case hs: True
    have "?i + 1 < int (length ?s)"
    proof (rule ccontr)
      assume "\<not> ?i + 1 < int (length ?s)"
      with i0 i1 have "nat ?i = length ?s - 1" and "?s \<noteq> []" by auto
      then have "?s ! nat ?i = last ?s" by (simp add: last_conv_nth)
      with hs nd \<open>?s \<noteq> []\<close> show False by (simp add: noDanglingSurrogate_def)
    qed
    with i0 have "qat ?s (?i + 1) = Inr (?s ! nat (?i + 1))" by (simp add: qat_def)
    with q hs show ?thesis by (simp add: advanceChar_def Let_def)
  qed
qed

lemma layoutChars_total:
  "layInv W lay \<Longrightarrow> noDanglingSurrogate (m_lineContent lay) \<Longrightarrow> \<exists>chars. layoutChars lay = Inr chars"
proof (induction lay rule: layoutChars.induct)
  case (1 lay)
  show ?case
  proof (cases "hasMoreChars lay")
    case False
    then show ?thesis by (subst layoutChars.simps) simp
  next
    case True
    from advanceChar_total[OF "1.prems" True] obtain lay' where a: "advanceChar lay = Inr lay'" ..
    have "layInv W lay'" using "1.prems"(1) a by (rule layInv_advance(1))
    moreover have "noDanglingSurrogate (m_lineContent lay')"
      using "1.prems"(2) advanceChar_progress(1)[OF a] by simp
    ultimately obtain rest where "layoutChars lay' = Inr rest"
      using "1.IH"[OF True a] by blast
    with True a show ?thesis by (subst layoutChars.simps) simp
  qed
qed

lemma layoutChars_fields:
  "layoutChars lay = Inr chars \<Longrightarrow> k < length chars \<Longrightarrow>
     m_lineContent (chars ! k) = m_lineContent lay \<and> m_lineStartIndex (chars ! k) = m_lineStartIndex lay \<and>
     m_lineLeftMargin (chars ! k) = m_lineLeftMargin lay \<and> m_fm (chars ! k) = m_fm lay \<and>
     m_tabStopPx (chars ! k) = m_tabStopPx lay"
proof (induction k)
  case 0
  from layoutChars_nth[OF 0] have a: "advanceChar lay = Inr (chars ! 0)" by simp
  from advanceChar_fields[OF a] advanceChar_progress(1)[OF a] show ?case by simp
next
  case (Suc k)
  from layoutChars_nth[OF Suc.prems] have a: "advanceChar (chars ! k) = Inr (chars ! Suc k)" by simp
  from advanceChar_fields[OF a] advanceChar_progress(1)[OF a] Suc show ?case by simp
qed

lemma layoutLine_cases:
  assumes "layoutLine fm margins f ln = Inr chars"
  obtains lay where "LineLayout_init fm margins f ln = Inr lay" and "layoutChars lay = Inr chars"
  using assms by (auto simp: layoutLine_def split: sum.splits)

text \<open>
  Claim C7.  The cursor does not treat a high surrogate at the end of a line as a character
  of one code unit: \<open>advanceChar\<close> reads the code unit after it, which is outside the
  line.  On the line of an \<^verbatim>\<open>a\<close> and a lone high surrogate the layout of the line,
  the hit test of a pixel right of the text and the pixel of a column past the end all
  fail with an index out of range.
\<close>

theorem lone_high_surrogate_reads_past_line_end:
  "lineContent loneFile 0 = Inr [0x61, 0xD83D] \<and>
   map_sum id (map charColumn) (layoutLine exFont exMargins loneFile 0) = Inl IndexOutOfRange \<and>
   hitTest (exView loneFile) (mkPoint 1000 5) = Inl IndexOutOfRange \<and>
   locationToPoint (exView loneFile) (mkLocation 0 5) = Inl IndexOutOfRange"
  by code_simp

text \<open>
  Claim C2, as stated, fails: on a line of a surrogate pair and an \<^verbatim>\<open>a\<close> the columns
  of the two characters are 0 and 2, while counting the pair as one column gives 0 and 1.
\<close>

theorem column_counts_code_units_counterexample:
  "map_sum id (map charColumn) (layoutLine exFont exMargins pairFile 0) = Inr [0, 2] \<and>
   map_sum id (map charColumn) (layoutLine exFont exMargins pairFile 0) \<noteq> Inr [0, 1]"
  by code_simp

text \<open>
  Claim C2, amended.  The column of each character the cursor produces is the index in
  the line of its first code unit: the first character has column 0 and every other
  character the column of its predecessor plus 2 when the predecessor is a surrogate pair
  (its first code unit has the high-surrogate flag) and plus 1 otherwise.  The file offset
  is always the start of the line plus the column, so it advances with the column.
\<close>

theorem column_is_code_unit_index:
  assumes "layoutLine fm margins f ln = Inr chars"
  shows "\<exists>st lc. lineStart f ln = Inr st \<and> lineContent f ln = Inr lc \<and>
           (\<forall>k. k < length chars \<longrightarrow>
              0 \<le> charColumn (chars ! k) \<and> charColumn (chars ! k) < int (length lc) \<and>
              charFileIndex (chars ! k) = st + charColumn (chars ! k) \<and>
              m_charIsSurrogatePair (chars ! k) = isHighSurrogate (lc ! nat (charColumn (chars ! k))) \<and>
              charColumn (chars ! k) =
                (if k = 0 then 0
                 else charColumn (chars ! (k - 1)) + (if m_charIsSurrogatePair (chars ! (k - 1)) then 2 else 1)) \<and>
              charFileIndex (chars ! k) =
                (if k = 0 then st
                 else charFileIndex (chars ! (k - 1)) + (if m_charIsSurrogatePair (chars ! (k - 1)) then 2 else 1)))"
proof -
  from assms obtain lay where i: "LineLayout_init fm margins f ln = Inr lay"
    and c: "layoutChars lay = Inr chars" by (rule layoutLine_cases)
  note f = init_fields[OF i]
  have col: "charColumn (chars ! k) =
                (if k = 0 then 0
                 else charColumn (chars ! (k - 1)) + (if m_charIsSurrogatePair (chars ! (k - 1)) then 2 else 1))"
    if k: "k < length chars" for k
  proof -
    from layoutChars_nth[OF c k] have a: "advanceChar ((lay # chars) ! k) = Inr (chars ! k)" by simp
    from advanceChar_progress(2)[OF a] show ?thesis
      using f(3,5) by (cases k) (simp_all add: charColumn_def nextCharIndex_def)
  qed
  have fld: "m_lineContent (chars ! k) = m_lineContent lay \<and> m_lineStartIndex (chars ! k) = m_lineStartIndex lay"
    if k: "k < length chars" for k
    using layoutChars_fields[OF c k] by simp
  have idx: "charFileIndex (chars ! k) = m_lineStartIndex lay + charColumn (chars ! k)"
    if k: "k < length chars" for k
    using fld[OF k] by (simp add: charFileIndex_def charColumn_def)
  have rng: "0 \<le> charColumn (chars ! k) \<and> charColumn (chars ! k) < int (length (m_lineContent lay)) \<and>
             m_charIsSurrogatePair (chars ! k) = isHighSurrogate (m_lineContent lay ! nat (charColumn (chars ! k)))"
    if k: "k < length chars" for k
  proof -
    let ?p = "(lay # chars) ! k"
    from layoutChars_nth[OF c k] have a: "advanceChar ?p = Inr (chars ! k)" by simp
    have pc: "m_lineContent ?p = m_lineContent lay"
      using fld[of "k - 1"] k by (cases k) simp_all
    from advanceChar_pair[OF a] obtain ch where
      q: "qat (m_lineContent ?p) (nextCharIndex ?p) = Inr ch"
      and p: "m_charIsSurrogatePair (chars ! k) = isHighSurrogate ch" by blast
    from advanceChar_progress(2)[OF a] have n: "nextCharIndex ?p = charColumn (chars ! k)"
      by (simp add: charColumn_def)
    from q p show ?thesis unfolding pc n
      by (auto simp: qat_def split: if_splits)
  qed
  have "\<forall>k. k < length chars \<longrightarrow>
              0 \<le> charColumn (chars ! k) \<and> charColumn (chars ! k) < int (length (m_lineContent lay)) \<and>
              charFileIndex (chars ! k) = m_lineStartIndex lay + charColumn (chars ! k) \<and>
              m_charIsSurrogatePair (chars ! k) = isHighSurrogate (m_lineContent lay ! nat (charColumn (chars ! k))) \<and>
              charColumn (chars ! k) =
                (if k = 0 then 0
                 else charColumn (chars ! (k - 1)) + (if m_charIsSurrogatePair (chars ! (k - 1)) then 2 else 1)) \<and>
              charFileIndex (chars ! k) =
                (if k = 0 then m_lineStartIndex lay
                 else charFileIndex (chars ! (k - 1)) + (if m_charIsSurrogatePair (chars ! (k - 1)) then 2 else 1))"
  proof (intro allI impI)
    fix k assume k: "k < length chars"
    have "charFileIndex (chars ! k) =
                (if k = 0 then m_lineStartIndex lay
                 else charFileIndex (chars ! (k - 1)) + (if m_charIsSurrogatePair (chars ! (k - 1)) then 2 else 1))"
    proof (cases k)
      case 0
      with idx[OF k] col[OF k] show ?thesis by simp
    next
      case (Suc j)
      with k have j: "j < length chars" by simp
      from idx[OF k] idx[OF j] col[OF k] Suc show ?thesis by simp
    qed
    with rng[OF k] idx[OF k] col[OF k]
    show "0 \<le> charColumn (chars ! k) \<and> charColumn (chars ! k) < int (length (m_lineContent lay)) \<and>
              charFileIndex (chars ! k) = m_lineStartIndex lay + charColumn (chars ! k) \<and>
              m_charIsSurrogatePair (chars ! k) = isHighSurrogate (m_lineContent lay ! nat (charColumn (chars ! k))) \<and>
              charColumn (chars ! k) =
                (if k = 0 then 0
                 else charColumn (chars ! (k - 1)) + (if m_charIsSurrogatePair (chars ! (k - 1)) then 2 else 1)) \<and>
              charFileIndex (chars ! k) =
                (if k = 0 then m_lineStartIndex lay
                 else charFileIndex (chars ! (k - 1)) + (if m_charIsSurrogatePair (chars ! (k - 1)) then 2 else 1))"
      by blast
  qed
  with f(6,7) show ?thesis by blast
qed

theorem column_is_code_unit_index_witness:
  "\<exists>chars. layoutLine exFont exMargins pairFile 0 = Inr chars \<and> length chars = 2 \<and>
      m_charIsSurrogatePair (chars ! 0) \<and> charColumn (chars ! 0) = 0 \<and> charColumn (chars ! 1) = 2 \<and>
      charFileIndex (chars ! 1) = 2"
proof -
  have e: "map_sum id (map (\<lambda>c. (charColumn c, charFileIndex c, m_charIsSurrogatePair c)))
             (layoutLine exFont exMargins pairFile 0) = Inr [(0, 0, True), (2, 2, False)]"
    by code_simp
  then obtain chars where c: "layoutLine exFont exMargins pairFile 0 = Inr chars"
    and m: "map (\<lambda>c. (charColumn c, charFileIndex c, m_charIsSurrogatePair c)) chars =
              [(0, 0, True), (2, 2, False)]"
    by (cases "layoutLine exFont exMargins pairFile 0") auto
  from m obtain a b where ab: "chars = [a, b]"
    by (auto simp: map_eq_Cons_conv)
  with m c column_is_code_unit_index[OF c] show ?thesis by simp
qed

lemma layoutChars_left_step:
  assumes c: "layoutChars lay = Inr chars" and inv: "layInv W lay" and k: "k + 1 < length chars"
  shows "charLeft (chars ! (k + 1)) = charLeft (chars ! k) + charWidth (chars ! k)"
proof -
  from k have k0: "k < length chars" by simp
  from layoutChars_nth[OF c k] have a: "advanceChar (chars ! k) = Inr (chars ! (k + 1))" by simp
  have i0: "layInv W (chars ! k)" using c inv k0 by (rule layoutChars_layInv)
  have i1: "layInv W (chars ! (k + 1))" using c inv k by (rule layoutChars_layInv)
  from layInv_advance(2)[OF i0 a] advanceChar_fields(3)[OF a] layInv_edges(1)[OF i0] layInv_edges(1)[OF i1]
  show ?thesis by (simp add: charWidth_def)
qed

lemma layoutLine_layInv:
  assumes fo: "font_ok fm" and fw: "fontWithin fm W" and lc: "lineContent f ln = Inr lc"
    and lf: "lineFits W margins lc" and ll: "layoutLine fm margins f ln = Inr chars"
  obtains lay where "LineLayout_init fm margins f ln = Inr lay" and "layoutChars lay = Inr chars"
    and "layInv W lay" and "m_lineContent lay = lc"
proof -
  from ll obtain lay where i: "LineLayout_init fm margins f ln = Inr lay"
    and c: "layoutChars lay = Inr chars" by (rule layoutLine_cases)
  from init_fields(6)[OF i] lc have m: "m_lineContent lay = lc" by simp
  with lf have "lineFits W margins (m_lineContent lay)" by simp
  with fo fw i have inv: "layInv W lay" by (rule layInv_init)
  from i c inv m show ?thesis by (rule that)
qed

text \<open>
  Claim C8, as stated, fails.  With a font whose characters are \<open>2 ^ 30\<close> pixels wide
  the left edges of the line \<^verbatim>\<open>abc\<close> are 4, \<open>2 ^ 30 + 4\<close> and
  \<open>- 2 ^ 31 + 4\<close>: the sum of the widths leaves the range of an \<open>int\<close> and wraps
  around, so the third left edge is below the second, across a character of positive
  width.
\<close>

theorem layout_left_edges_overflow_counterexample:
  "font_ok wideFont \<and>
   map_sum id (map (\<lambda>c. (charLeft c, charWidth c))) (layoutLine wideFont exMargins abcFile 0) =
     Inr [(4, 1073741824), (1073741828, 1073741824), (- 2147483644, 1073741824)] \<and>
   \<not> sorted [4, 1073741828, - 2147483644 :: int]"
proof -
  have "font_ok wideFont" by (simp add: font_ok_def wideFont_def)
  moreover have "map_sum id (map (\<lambda>c. (charLeft c, charWidth c))) (layoutLine wideFont exMargins abcFile 0) =
     Inr [(4, 1073741824), (1073741828, 1073741824), (- 2147483644, 1073741824)]" by code_simp
  moreover have "\<not> sorted [4, 1073741828, - 2147483644 :: int]" by simp
  ultimately show ?thesis by blast
qed

text \<open>
  Claim C8, amended.  Take a font with a positive space width and line height, no negative
  width and no run of one or two code units or tab stop wider than \<open>W\<close>, and a line
  whose length times \<open>W\<close>, alone and after the left margin, is below \<open>2 ^ 31\<close>.
  Along that line the left edge of each character is the left edge of the character before
  it plus that character's width; widths are not negative, so the left edges never
  decrease, and they increase across every character of positive width.
\<close>

theorem layout_left_edges_monotone:
  assumes "font_ok fm" and "fontWithin fm W" and "lineContent f ln = Inr lc"
    and "lineFits W margins lc" and "layoutLine fm margins f ln = Inr chars"
  shows "sorted (map charLeft chars) \<and>
         (\<forall>k. k + 1 < length chars \<longrightarrow>
            charLeft (chars ! (k + 1)) = charLeft (chars ! k) + charWidth (chars ! k) \<and>
            0 \<le> charWidth (chars ! k) \<and>
            charLeft (chars ! k) \<le> charLeft (chars ! (k + 1)) \<and>
            (0 < charWidth (chars ! k) \<longrightarrow> charLeft (chars ! k) < charLeft (chars ! (k + 1))))"
proof -
  from assms obtain lay where c: "layoutChars lay = Inr chars" and inv: "layInv W lay"
    by (rule layoutLine_layInv)
  have w: "0 \<le> charWidth (chars ! k)" if "k < length chars" for k
    using layoutChars_layInv[OF c inv that] by (simp add: layInv_def charWidth_def)
  have step: "charLeft (chars ! (k + 1)) = charLeft (chars ! k) + charWidth (chars ! k)"
    if "k + 1 < length chars" for k
    using c inv that by (rule layoutChars_left_step)
  have adj: "\<forall>k. k + 1 < length chars \<longrightarrow>
            charLeft (chars ! (k + 1)) = charLeft (chars ! k) + charWidth (chars ! k) \<and>
            0 \<le> charWidth (chars ! k) \<and>
            charLeft (chars ! k) \<le> charLeft (chars ! (k + 1)) \<and>
            (0 < charWidth (chars ! k) \<longrightarrow> charLeft (chars ! k) < charLeft (chars ! (k + 1)))"
  proof (intro allI impI)
    fix k assume k: "k + 1 < length chars"
    then have "k < length chars" by simp
    from step[OF k] w[OF this]
    show "charLeft (chars ! (k + 1)) = charLeft (chars ! k) + charWidth (chars ! k) \<and>
            0 \<le> charWidth (chars ! k) \<and>
            charLeft (chars ! k) \<le> charLeft (chars ! (k + 1)) \<and>
            (0 < charWidth (chars ! k) \<longrightarrow> charLeft (chars ! k) < charLeft (chars ! (k + 1)))"
      by simp
  qed
  have "sorted (map charLeft chars)"
    unfolding sorted_iff_nth_Suc using adj by simp
  with adj show ?thesis by blast
qed

theorem layout_left_edges_monotone_witness:
  "font_ok exFont \<and> fontWithin exFont 56 \<and> lineContent tabFile 0 = Inr [tabChar, 0x61, tabChar] \<and>
   lineFits 56 exMargins [tabChar, 0x61, tabChar] \<and>
   (\<exists>chars. layoutLine exFont exMargins tabFile 0 = Inr chars \<and>
      map charLeft chars = [4, 60, 67] \<and> map charWidth chars = [56, 7, 49] \<and>
      sorted (map charLeft chars))"
proof -
  have fo: "font_ok exFont" by (simp add: font_ok_def exFont_def)
  have fw: "fontWithin exFont 56"
    by (simp add: fontWithin_def exFont_def kTabStopSize_def)
  have lc: "lineContent tabFile 0 = Inr [tabChar, 0x61, tabChar]" by code_simp
  have lf: "lineFits 56 exMargins [tabChar, 0x61, tabChar]" by code_simp
  have e: "map_sum id (map (\<lambda>c. (charLeft c, charWidth c)))
             (layoutLine exFont exMargins tabFile 0) = Inr [(4, 56), (60, 7), (67, 49)]"
    by code_simp
  then obtain chars where c: "layoutLine exFont exMargins tabFile 0 = Inr chars"
    and m: "map (\<lambda>c. (charLeft c, charWidth c)) chars = [(4, 56), (60, 7), (67, 49)]"
    by (cases "layoutLine exFont exMargins tabFile 0") auto
  from m obtain a b d where ab: "chars = [a, b, d]"
    by (auto simp: map_eq_Cons_conv)
  with m c fo fw lc lf layout_left_edges_monotone[OF fo fw lc lf c] show ?thesis by simp
qed

lemma nextTabStop_next:
  assumes "0 < T"
  shows "pos < nextTabStop T pos" and "nextTabStop T pos \<le> pos + T" and "nextTabStop T pos mod T = 0"
proof -
  have e: "(pos div T + 1) * T = pos - pos mod T + T"
    by (simp add: algebra_simps minus_mod_eq_mult_div)
  have m: "0 \<le> pos mod T" "pos mod T < T" using assms by simp_all
  show "pos < nextTabStop T pos" using e m by (simp add: nextTabStop_def)
  show "nextTabStop T pos \<le> pos + T" using e m by (simp add: nextTabStop_def)
  show "nextTabStop T pos mod T = 0" by (simp add: nextTabStop_def)
qed

lemma measureLineLength_loop_fold:
  "0 < T \<Longrightarrow> 0 \<le> i \<Longrightarrow> i \<le> stop \<Longrightarrow> stop \<le> int (length data) \<Longrightarrow> 0 \<le> pos \<Longrightarrow>
         pos + (stop - i) * T < 2 ^ 31 \<Longrightarrow>
         measureLineLength_loop data T i stop pos =
           Inr (foldl (\<lambda>pos ch. if ch = tabChar then nextTabStop T pos else pos + 1) pos
                  (take (nat (stop - i)) (drop (nat i) data)))"
proof (induction data T i stop pos rule: measureLineLength_loop.induct)
  case (1 data T i stop pos)
  let ?step = "\<lambda>pos ch. if ch = tabChar then nextTabStop T pos else pos + 1"
  note T = "1.prems"(1)
  show ?case
  proof (cases "i < stop")
    case False
    with "1.prems" have "stop - i = 0" by simp
    with False show ?thesis by (subst measureLineLength_loop.simps) simp
  next
    case True
    with "1.prems" have il: "nat i < length data" by simp
    with "1.prems" have q: "qat data i = Inr (data ! nat i)" by (simp add: qat_def)
    have seg: "take (nat (stop - i)) (drop (nat i) data) =
                 data ! nat i # take (nat (stop - (i + 1))) (drop (nat (i + 1)) data)"
    proof -
      have "nat (stop - i) = Suc (nat (stop - (i + 1)))" using True by simp
      moreover have "drop (nat i) data = data ! nat i # drop (nat (i + 1)) data"
        using il "1.prems"(2) by (simp add: Cons_nth_drop_Suc nat_add_distrib)
      ultimately show ?thesis by simp
    qed
    from True have "1 \<le> stop - i" by simp
    then have "1 * T \<le> (stop - i) * T" using T by (intro mult_right_mono) simp_all
    then have sT: "T + (stop - (i + 1)) * T = (stop - i) * T" "T \<le> (stop - i) * T"
      by (simp_all add: algebra_simps)
    have i1: "0 \<le> i + 1" "i + 1 \<le> stop" using "1.prems"(2) True by simp_all
    show ?thesis
    proof (cases "data ! nat i = tabChar")
      case tab: True
      note n = nextTabStop_next[OF T, of pos]
      have b: "pos + T < 2 ^ 31" using "1.prems"(6) sT(2) by linarith
      have a: "add32 pos T = pos + T"
        using "1.prems"(5) T b unfolding add32_def by (intro wrap32_nonneg) simp_all
      have c: "cdiv (pos + T) T = Inr ((pos + T) div T)"
        using "1.prems"(5) T by (intro cdiv_nonneg) simp_all
      have d: "(pos + T) div T * T = nextTabStop T pos"
        using T by (simp add: nextTabStop_def div_add_self2)
      have p0: "0 \<le> nextTabStop T pos" using n(1) "1.prems"(5) by linarith
      have m: "mul32 ((pos + T) div T) T = nextTabStop T pos"
        unfolding mul32_def d using p0 n(2) b by (intro wrap32_nonneg) linarith+
      have r: "nextTabStop T pos + (stop - (i + 1)) * T < 2 ^ 31"
        using n(2) "1.prems"(6) sT(1) by linarith
      from "1.IH"(1)[OF True q tab, of "(pos + T) div T"] a c m
      have "measureLineLength_loop data T (i + 1) stop (nextTabStop T pos) =
              Inr (foldl ?step (nextTabStop T pos)
                     (take (nat (stop - (i + 1))) (drop (nat (i + 1)) data)))"
        using i1 "1.prems"(4) p0 r T by simp
      with True q tab a c m seg show ?thesis
        by (subst measureLineLength_loop.simps) simp
    next
      case False
      have b: "pos + 1 < 2 ^ 31" using "1.prems"(6) sT(2) T by linarith
      have a: "add32 pos 1 = pos + 1"
        using "1.prems"(5) b unfolding add32_def by (intro wrap32_nonneg) simp_all
      have r: "pos + 1 + (stop - (i + 1)) * T < 2 ^ 31"
        using "1.prems"(6) sT(1) T by linarith
      from "1.IH"(2)[OF True q False] a
      have "measureLineLength_loop data T (i + 1) stop (pos + 1) =
              Inr (foldl ?step (pos + 1)
                     (take (nat (stop - (i + 1))) (drop (nat (i + 1)) data)))"
        using i1 "1.prems"(4,5) r T by simp
      with True q False a seg show ?thesis
        by (subst measureLineLength_loop.simps) simp
    qed
  qed
qed

lemma measureLineLength_expanded:
  assumes "0 < T" "0 \<le> start" "0 \<le> sz" "start + sz \<le> int (length data)" "sz * T < 2 ^ 31"
  shows "measureLineLength data start sz T =
           Inr (tabExpandedLength T (take (nat sz) (drop (nat start) data)))"
  using measureLineLength_loop_fold[OF assms(1), of start "start + sz" data 0] assms
  by (simp add: measureLineLength_def tabExpandedLength_def)

lemma tabExpandedLength_snoc:
  "tabExpandedLength T (cs @ [ch]) =
     (if ch = tabChar then nextTabStop T (tabExpandedLength T cs) else tabExpandedLength T cs + 1)"
  by (simp add: tabExpandedLength_def)

lemma tabExpandedLength_tabs:
  assumes "0 < T"
  shows "tabExpandedLength T (replicate n tabChar) = int n * T"
proof (induction n)
  case 0
  show ?case by (simp add: tabExpandedLength_def)
next
  case (Suc n)
  have "replicate (Suc n) tabChar = replicate n tabChar @ [tabChar]"
    by (simp add: replicate_append_same)
  then have "tabExpandedLength T (replicate (Suc n) tabChar) = nextTabStop T (int n * T)"
    using Suc by (simp add: tabExpandedLength_snoc)
  also have "\<dots> = int (Suc n) * T" using assms by (simp add: nextTabStop_def algebra_simps)
  finally show ?case .
qed

lemma layInv_tab_room:
  assumes inv: "layInv W lay" and more: "hasMoreChars lay"
  shows "m_charLeft lay + m_charWidth lay + m_tabStopPx lay < 2 ^ 31"
proof -
  let ?i = "nextCharIndex lay" and ?n = "int (length (m_lineContent lay))"
  note s = layInv_sum[OF inv]
  from inv have T: "m_tabStopPx lay \<le> W" and nW: "?n * W < 2 ^ 31" by (simp_all add: layInv_def)
  from more have i1: "?i < ?n" by (simp add: hasMoreChars_def)
  have "m_charIndex lay + 1 \<le> ?i" by (simp add: nextCharIndex_def)
  then have "(m_charIndex lay + 1) * W \<le> ?i * W" using s(1) by (rule mult_right_mono)
  moreover from i1 have "?i + 1 \<le> ?n" by simp
  then have "(?i + 1) * W \<le> ?n * W" using s(1) by (rule mult_right_mono)
  then have "?i * W + W \<le> ?n * W" by (simp add: algebra_simps)
  ultimately show ?thesis using s(3) T nW by linarith
qed

lemma init_tabStop:
  assumes "font_ok fm" and "fontWithin fm W" and "LineLayout_init fm margins f ln = Inr lay"
  shows "m_tabStopPx lay = kTabStopSize * fm_width fm spaceChar"
proof -
  from assms(1,2) have t: "0 < fm_width fm spaceChar * kTabStopSize"
    "fm_width fm spaceChar * kTabStopSize < 2 ^ 31"
    by (simp_all add: font_ok_def fontWithin_def kTabStopSize_def)
  then have "mul32 (fm_width fm spaceChar) kTabStopSize = fm_width fm spaceChar * kTabStopSize"
    unfolding mul32_def by (intro wrap32_nonneg) simp_all
  with init_fields(9)[OF assms(3)] show ?thesis by (simp add: mult.commute)
qed

lemma tab_char_layout:
  assumes fo: "font_ok fm" and fw: "fontWithin fm W" and lc: "lineContent f ln = Inr lc"
    and lf: "lineFits W margins lc" and ll: "layoutLine fm margins f ln = Inr chars"
    and k: "k < length chars" and tab: "lc ! nat (charColumn (chars ! k)) = tabChar"
  shows "charText (chars ! k) = [] \<and>
         0 < charWidth (chars ! k) \<and>
         charWidth (chars ! k) \<le> kTabStopSize * fm_width fm spaceChar \<and>
         (charLeft (chars ! k) - margin_left margins + charWidth (chars ! k))
            mod (kTabStopSize * fm_width fm spaceChar) = 0"
proof -
  from fo fw lc lf ll obtain lay where i: "LineLayout_init fm margins f ln = Inr lay"
    and c: "layoutChars lay = Inr chars" and inv: "layInv W lay" and mc: "m_lineContent lay = lc"
    by (rule layoutLine_layInv)
  note f = init_fields[OF i] and ts = init_tabStop[OF fo fw i]
  let ?p = "(lay # chars) ! k"
  from layoutChars_nth[OF c k] have more: "hasMoreChars ?p" and a: "advanceChar ?p = Inr (chars ! k)"
    by simp_all
  have pinv: "layInv W ?p"
    using inv layoutChars_layInv[OF c inv, of "k - 1"] k by (cases k) simp_all
  have kinv: "layInv W (chars ! k)" using c inv k by (rule layoutChars_layInv)
  have pf: "m_lineContent ?p = lc \<and> m_tabStopPx ?p = kTabStopSize * fm_width fm spaceChar"
    using layoutChars_fields[OF c, of "k - 1"] k mc ts by (cases k) simp_all
  from advanceChar_pair[OF a] obtain ch where q: "qat (m_lineContent ?p) (nextCharIndex ?p) = Inr ch"
    by blast
  from advanceChar_progress(2)[OF a] have n: "nextCharIndex ?p = charColumn (chars ! k)"
    by (simp add: charColumn_def)
  from q tab have qt: "qat (m_lineContent ?p) (nextCharIndex ?p) = Inr tabChar"
    unfolding n using pf by (auto simp: qat_def split: if_splits)
  from pinv have T: "0 < m_tabStopPx ?p" by (simp add: layInv_def)
  note L = layInv_sum(2)[OF pinv] and B = layInv_tab_room[OF pinv more]
  from advanceChar_tab[OF qt T L B] a have r: "m_charText (chars ! k) = []"
    "0 < m_charWidth (chars ! k)" "m_charWidth (chars ! k) \<le> m_tabStopPx ?p"
    "(m_charLeft (chars ! k) + m_charWidth (chars ! k)) mod m_tabStopPx ?p = 0" by auto
  have lm: "m_lineLeftMargin (chars ! k) = margin_left margins"
    using layoutChars_fields[OF c k] f by simp
  have cl: "charLeft (chars ! k) = margin_left margins + m_charLeft (chars ! k)"
    using layInv_edges(1)[OF kinv] lm by simp
  from r pf cl show ?thesis by (simp add: charText_def charWidth_def)
qed

text \<open>
  Claim C1, as stated, fails where a sum leaves the range of an \<open>int\<close>.  With a tab
  stop size of 1500000000 columns, \<open>measureLineLength\<close> of two tabs is 0, not the
  next multiple 3000000000 after the first tab's end.  With a space \<open>2 ^ 28\<close> pixels
  wide the tab stop is \<open>2 ^ 31\<close> pixels, and the tab at the start of a line gets the
  width \<open>- 2 ^ 31\<close>.
\<close>

theorem tab_expansion_overflow_counterexample:
  "measureLineLength [tabChar, tabChar] 0 2 1500000000 = Inr 0 \<and>
   font_ok wideSpaceFont \<and>
   kTabStopSize * fm_width wideSpaceFont spaceChar = 2147483648 \<and>
   lineContent tabFile 0 = Inr [tabChar, 0x61, tabChar] \<and>
   map_sum id (map (\<lambda>c. (charLeft c, charWidth c))) (layoutLine wideSpaceFont exMargins tabFile 0) =
     Inr [(4, - 2147483648), (- 2147483644, 7), (- 2147483637, 2147483641)]"
proof -
  have "font_ok wideSpaceFont" by (simp add: font_ok_def wideSpaceFont_def)
  moreover have "measureLineLength [tabChar, tabChar] 0 2 1500000000 = Inr 0" by code_simp
  moreover have "kTabStopSize * fm_width wideSpaceFont spaceChar = 2147483648" by code_simp
  moreover have "lineContent tabFile 0 = Inr [tabChar, 0x61, tabChar]" by code_simp
  moreover have "map_sum id (map (\<lambda>c. (charLeft c, charWidth c)))
      (layoutLine wideSpaceFont exMargins tabFile 0) =
     Inr [(4, - 2147483648), (- 2147483644, 7), (- 2147483637, 2147483641)]" by code_simp
  ultimately show ?thesis by blast
qed

text \<open>
  Claim C1, amended.  In pixels: take a font with a positive space width and line height,
  no negative width and no run of one or two code units or tab stop wider than \<open>W\<close>,
  and a line whose length times \<open>W\<close>, alone and after the left margin, is below
  \<open>2 ^ 31\<close>.  A character of that line that is a tab has no text, and its width is the
  distance from its pixel offset in the line (its left edge without the left margin) to
  the next multiple of the tab stop of 8 space widths: the width is positive, at most one
  tab stop, and the offset plus the width is a multiple of the tab stop.  In columns: for
  a tab stop size \<open>T\<close> above 0 and a segment of a string whose length times \<open>T\<close> is
  below \<open>2 ^ 31\<close>, \<open>measureLineLength\<close> of the segment is its tab-expanded length, in
  which a tab ends at the next multiple of \<open>T\<close> above the prior column and any other
  code unit one column further.  So \<open>n\<close> tabs from column 0 end at column \<open>n\<close> times
  \<open>T\<close> when that is below \<open>2 ^ 31\<close>; with tab stops of 8, one tab ends at column 8,
  and in tab, \<^verbatim>\<open>a\<close>, tab the \<^verbatim>\<open>a\<close> ends at column 9 and the second tab at
  column 16.
\<close>

theorem tab_expansion:
  "(font_ok fm \<and> fontWithin fm W \<and> lineContent f ln = Inr lc \<and> lineFits W margins lc \<and>
    layoutLine fm margins f ln = Inr chars \<and>
    k < length chars \<and> lc ! nat (charColumn (chars ! k)) = tabChar \<longrightarrow>
        charText (chars ! k) = [] \<and>
        0 < charWidth (chars ! k) \<and>
        charWidth (chars ! k) \<le> kTabStopSize * fm_width fm spaceChar \<and>
        (charLeft (chars ! k) - margin_left margins + charWidth (chars ! k))
           mod (kTabStopSize * fm_width fm spaceChar) = 0) \<and>
   (0 < T \<and> 0 \<le> start \<and> 0 \<le> sz \<and> start + sz \<le> int (length data) \<and> sz * T < 2 ^ 31 \<longrightarrow>
      measureLineLength data start sz T =
        Inr (tabExpandedLength T (take (nat sz) (drop (nat start) data)))) \<and>
   (0 < T \<longrightarrow>
      tabExpandedLength T (cs @ [tabChar]) = nextTabStop T (tabExpandedLength T cs) \<and>
      tabExpandedLength T cs < nextTabStop T (tabExpandedLength T cs) \<and>
      nextTabStop T (tabExpandedLength T cs) \<le> tabExpandedLength T cs + T \<and>
      nextTabStop T (tabExpandedLength T cs) mod T = 0) \<and>
   (ch \<noteq> tabChar \<longrightarrow> tabExpandedLength T (cs @ [ch]) = tabExpandedLength T cs + 1) \<and>
   (0 < T \<and> int n * T < 2 ^ 31 \<longrightarrow>
      measureLineLength (replicate n tabChar) 0 (int n) T = Inr (int n * T)) \<and>
   measureLineLength [tabChar] 0 1 kTabStopSize = Inr 8 \<and>
   measureLineLength [tabChar, 0x61, tabChar] 0 3 kTabStopSize = Inr 16 \<and>
   measureLineLength [tabChar, 0x61] 0 2 kTabStopSize = Inr 9"
proof (intro conjI)
  show "font_ok fm \<and> fontWithin fm W \<and> lineContent f ln = Inr lc \<and> lineFits W margins lc \<and>
    layoutLine fm margins f ln = Inr chars \<and>
    k < length chars \<and> lc ! nat (charColumn (chars ! k)) = tabChar \<longrightarrow>
        charText (chars ! k) = [] \<and>
        0 < charWidth (chars ! k) \<and>
        charWidth (chars ! k) \<le> kTabStopSize * fm_width fm spaceChar \<and>
        (charLeft (chars ! k) - margin_left margins + charWidth (chars ! k))
           mod (kTabStopSize * fm_width fm spaceChar) = 0"
    using tab_char_layout[of fm W f ln lc margins chars k] by blast
next
  show "0 < T \<and> 0 \<le> start \<and> 0 \<le> sz \<and> start + sz \<le> int (length data) \<and> sz * T < 2 ^ 31 \<longrightarrow>
      measureLineLength data start sz T =
        Inr (tabExpandedLength T (take (nat sz) (drop (nat start) data)))"
    using measureLineLength_expanded[of T start sz data] by blast
next
  show "0 < T \<longrightarrow>
      tabExpandedLength T (cs @ [tabChar]) = nextTabStop T (tabExpandedLength T cs) \<and>
      tabExpandedLength T cs < nextTabStop T (tabExpandedLength T cs) \<and>
      nextTabStop T (tabExpandedLength T cs) \<le> tabExpandedLength T cs + T \<and>
      nextTabStop T (tabExpandedLength T cs) mod T = 0"
    using nextTabStop_next[of T "tabExpandedLength T cs"] by (simp add: tabExpandedLength_snoc)
next
  show "ch \<noteq> tabChar \<longrightarrow> tabExpandedLength T (cs @ [ch]) = tabExpandedLength T cs + 1"
    by (simp add: tabExpandedLength_snoc)
next
  show "0 < T \<and> int n * T < 2 ^ 31 \<longrightarrow>
      measureLineLength (replicate n tabChar) 0 (int n) T = Inr (int n * T)"
  proof
    assume h: "0 < T \<and> int n * T < 2 ^ 31"
    then have "measureLineLength (replicate n tabChar) 0 (int n) T =
        Inr (tabExpandedLength T (take (nat (int n)) (drop (nat 0) (replicate n tabChar))))"
      by (intro measureLineLength_expanded) simp_all
    with h show "measureLineLength (replicate n tabChar) 0 (int n) T = Inr (int n * T)"
      by (simp add: tabExpandedLength_tabs)
  qed
next
  show "measureLineLength [tabChar] 0 1 kTabStopSize = Inr 8" by code_simp
next
  show "measureLineLength [tabChar, 0x61, tabChar] 0 3 kTabStopSize = Inr 16" by code_simp
next
  show "measureLineLength [tabChar, 0x61] 0 2 kTabStopSize = Inr 9" by code_simp
qed

theorem tab_expansion_witness:
  "font_ok exFont \<and> fontWithin exFont 56 \<and> lineContent tabFile 0 = Inr [tabChar, 0x61, tabChar] \<and>
   lineFits 56 exMargins [tabChar, 0x61, tabChar] \<and>
   (\<exists>chars. layoutLine exFont exMargins tabFile 0 = Inr chars \<and> length chars = 3 \<and>
      charColumn (chars ! 2) = 2 \<and> charText (chars ! 2) = [] \<and>
      charLeft (chars ! 2) = 67 \<and> charWidth (chars ! 2) = 49 \<and>
      (charLeft (chars ! 2) - margin_left exMargins + charWidth (chars ! 2))
           mod (kTabStopSize * fm_width exFont spaceChar) = 0) \<and>
   measureLineLength (content tabFile) 4 1 8 = Inr (tabExpandedLength 8 [0x62]) \<and>
   tabExpandedLength 8 [0x62] = 1 \<and>
   tabExpandedLength 8 ([tabChar, 0x61] @ [tabChar]) = nextTabStop 8 (tabExpandedLength 8 [tabChar, 0x61]) \<and>
   nextTabStop 8 (tabExpandedLength 8 [tabChar, 0x61]) = 16 \<and>
   tabExpandedLength 8 ([tabChar] @ [0x61]) = tabExpandedLength 8 [tabChar] + 1 \<and>
   tabExpandedLength 8 [tabChar] = 8 \<and>
   measureLineLength (replicate 3 tabChar) 0 3 8 = Inr 24"
proof -
  have fo: "font_ok exFont" by (simp add: font_ok_def exFont_def)
  have fw: "fontWithin exFont 56" by (simp add: fontWithin_def exFont_def kTabStopSize_def)
  have lc: "lineContent tabFile 0 = Inr [tabChar, 0x61, tabChar]" by code_simp
  have lf: "lineFits 56 exMargins [tabChar, 0x61, tabChar]" by code_simp
  have e: "map_sum id (map (\<lambda>c. (charColumn c, charLeft c, charWidth c)))
             (layoutLine exFont exMargins tabFile 0) = Inr [(0, 4, 56), (1, 60, 7), (2, 67, 49)]"
    by code_simp
  then obtain chars where c: "layoutLine exFont exMargins tabFile 0 = Inr chars"
    and m: "map (\<lambda>c. (charColumn c, charLeft c, charWidth c)) chars = [(0, 4, 56), (1, 60, 7), (2, 67, 49)]"
    by (cases "layoutLine exFont exMargins tabFile 0") auto
  from m obtain a b d where ab: "chars = [a, b, d]"
    by (auto simp: map_eq_Cons_conv)
  have t: "[tabChar, 0x61, tabChar] ! nat (charColumn (chars ! 2)) = tabChar"
    using ab m by simp
  have k: "(2::nat) < length chars" using ab by simp
  have seg: "take (nat 1) (drop (nat 4) (content tabFile)) = [0x62]" by code_simp
  have len: "(4::int) + 1 \<le> int (length (content tabFile))" by code_simp
  have v1: "tabExpandedLength 8 [0x62] = 1" by code_simp
  have v2: "nextTabStop 8 (tabExpandedLength 8 [tabChar, 0x61]) = 16" by code_simp
  have v3: "tabExpandedLength 8 [tabChar] = 8" by code_simp
  have ne: "(0x61 :: qchar) \<noteq> tabChar" by (simp add: tabChar_def)
  note th = tab_expansion[of exFont 56 tabFile 0 "[tabChar, 0x61, tabChar]" exMargins chars 2
      8 4 1 "content tabFile" "[tabChar, 0x61]" tabChar 3]
  note th2 = tab_expansion[of exFont 56 tabFile 0 "[tabChar, 0x61, tabChar]" exMargins chars 2
      8 4 1 "content tabFile" "[tabChar]" "0x61" 3]
  from th2 ne have s: "tabExpandedLength 8 ([tabChar] @ [0x61]) = tabExpandedLength 8 [tabChar] + 1"
    by blast
  from th fo fw lc lf c k t ab m seg len v1 v2 v3 s show ?thesis by simp
qed

section \<open>Properties of the coordinate mapping\<close>

lemma hitTest_loop_unfold:
  "hitTest_loop f ln x lay =
     (if hasMoreChars lay then
        (case advanceChar lay of
           Inl e \<Rightarrow> Inl e
         | Inr lay' \<Rightarrow>
             if x < rightEdge lay' then Inr (mkLocation ln (charColumn lay'))
             else hitTest_loop f ln x lay')
      else (case lineLength f ln of Inl e \<Rightarrow> Inl e | Inr n \<Rightarrow> Inr (mkLocation ln n)))"
  unfolding rightEdge_def by (rule hitTest_loop.simps)

lemma locationToPoint_loop_unfold:
  "locationToPoint_loop v loc lay =
     (if hasMoreChars lay then
        (case advanceChar lay of
           Inl e \<Rightarrow> Inl e
         | Inr lay' \<Rightarrow>
             if charColumn lay' = column loc then Inr (mkPoint (charLeft lay') (lineTop v (line loc)))
             else locationToPoint_loop v loc lay')
      else Inr (mkPoint (rightEdge lay) (lineTop v (line loc))))"
  unfolding rightEdge_def by (rule locationToPoint_loop.simps)

lemma walkOk_advance:
  assumes "walkOk W f ln lay" and "hasMoreChars lay"
  obtains lay' where "advanceChar lay = Inr lay'" and "walkOk W f ln lay'"
    and "charLeft lay' = rightEdge lay" and "rightEdge lay \<le> rightEdge lay'"
    and "charColumn lay' = nextCharIndex lay" and "m_charIndex lay < charColumn lay'"
    and "charColumn lay' < int (length (m_lineContent lay))"
proof -
  from assms(1) have inv: "layInv W lay" and nd: "noDanglingSurrogate (m_lineContent lay)"
    by (simp_all add: walkOk_def)
  from advanceChar_total[OF inv nd assms(2)] obtain lay' where a: "advanceChar lay = Inr lay'" ..
  have inv': "layInv W lay'" using inv a by (rule layInv_advance(1))
  note p = advanceChar_progress[OF a] and fl = advanceChar_fields[OF a]
  have 1: "walkOk W f ln lay'"
    using assms inv' p by (simp add: walkOk_def hasMoreChars_def)
  have 2: "charLeft lay' = rightEdge lay"
    using layInv_edges(1)[OF inv'] layInv_edges(2)[OF inv] layInv_advance(2)[OF inv a] fl(3) by simp
  have 3: "rightEdge lay \<le> rightEdge lay'"
    using 2 layInv_edges(3)[OF inv'] inv' by (simp add: layInv_def charWidth_def)
  have 4: "charColumn lay' = nextCharIndex lay" using p by (simp add: charColumn_def)
  have 5: "m_charIndex lay < charColumn lay'" using 4 by (simp add: nextCharIndex_def)
  have 6: "charColumn lay' < int (length (m_lineContent lay))"
    using 4 assms(2) by (simp add: hasMoreChars_def)
  from a 1 2 3 4 5 6 show ?thesis by (rule that)
qed

lemma locationToPoint_loop_bound:
  "walkOk W f ln lay \<Longrightarrow>
     \<exists>X. locationToPoint_loop v loc lay = Inr (mkPoint X (lineTop v (line loc))) \<and> rightEdge lay \<le> X"
proof (induction lay rule: layoutChars.induct)
  case (1 lay)
  show ?case
  proof (cases "hasMoreChars lay")
    case False
    then show ?thesis by (subst locationToPoint_loop_unfold) auto
  next
    case True
    from walkOk_advance[OF "1.prems" True] obtain lay' where
      a: "advanceChar lay = Inr lay'" and ok: "walkOk W f ln lay'"
      and l: "charLeft lay' = rightEdge lay" and r: "rightEdge lay \<le> rightEdge lay'" by metis
    show ?thesis
    proof (cases "charColumn lay' = column loc")
      case True
      with \<open>hasMoreChars lay\<close> a l show ?thesis
        by (subst locationToPoint_loop_unfold) auto
    next
      case False
      from "1.IH"[OF True a ok] obtain X where
        "locationToPoint_loop v loc lay' = Inr (mkPoint X (lineTop v (line loc)))" "rightEdge lay' \<le> X"
        by blast
      with True a False r show ?thesis
        by (subst locationToPoint_loop_unfold) auto
    qed
  qed
qed

lemma hitTest_loop_bound:
  "walkOk W f ln lay \<Longrightarrow>
     \<exists>c. hitTest_loop f ln x lay = Inr (mkLocation ln c) \<and> m_charIndex lay < c \<and>
         c \<le> int (length (m_lineContent lay))"
proof (induction lay rule: layoutChars.induct)
  case (1 lay)
  show ?case
  proof (cases "hasMoreChars lay")
    case False
    with "1.prems" show ?thesis
      by (subst hitTest_loop_unfold) (auto simp: walkOk_def layInv_def)
  next
    case True
    from walkOk_advance[OF "1.prems" True] obtain lay' where
      a: "advanceChar lay = Inr lay'" and ok: "walkOk W f ln lay'"
      and c: "m_charIndex lay < charColumn lay'"
      and c2: "charColumn lay' < int (length (m_lineContent lay))" by metis
    show ?thesis
    proof (cases "x < rightEdge lay'")
      case True
      with \<open>hasMoreChars lay\<close> a c c2 show ?thesis
        by (subst hitTest_loop_unfold) auto
    next
      case False
      from "1.IH"[OF True a ok] obtain d where
        "hitTest_loop f ln x lay' = Inr (mkLocation ln d)" "m_charIndex lay' < d"
        "d \<le> int (length (m_lineContent lay'))" by blast
      with True a False c advanceChar_progress(1)[OF a] show ?thesis
        by (subst hitTest_loop_unfold) (auto simp: charColumn_def)
    qed
  qed
qed

lemma roundtrip_at_edge:
  "walkOk W f ln lay \<Longrightarrow> x = rightEdge lay \<Longrightarrow>
     \<exists>c. hitTest_loop f ln x lay = Inr (mkLocation ln c) \<and>
         locationToPoint_loop v (mkLocation ln c) lay = Inr (mkPoint x (lineTop v ln))"
proof (induction lay rule: layoutChars.induct)
  case (1 lay)
  show ?case
  proof (cases "hasMoreChars lay")
    case False
    with "1.prems" have "hitTest_loop f ln x lay = Inr (mkLocation ln (int (length (m_lineContent lay))))"
      by (subst hitTest_loop_unfold) (simp add: walkOk_def)
    moreover from False "1.prems"(2)
    have "locationToPoint_loop v (mkLocation ln (int (length (m_lineContent lay)))) lay =
            Inr (mkPoint x (lineTop v ln))"
      by (subst locationToPoint_loop_unfold) (simp add: mkLocation_def)
    ultimately show ?thesis by blast
  next
    case True
    from walkOk_advance[OF "1.prems"(1) True] obtain lay' where
      a: "advanceChar lay = Inr lay'" and ok: "walkOk W f ln lay'"
      and l: "charLeft lay' = rightEdge lay" and r: "rightEdge lay \<le> rightEdge lay'" by metis
    show ?thesis
    proof (cases "x < rightEdge lay'")
      case lt: True
      with True a have "hitTest_loop f ln x lay = Inr (mkLocation ln (charColumn lay'))"
        by (subst hitTest_loop_unfold) simp
      moreover from True a l "1.prems"(2)
      have "locationToPoint_loop v (mkLocation ln (charColumn lay')) lay = Inr (mkPoint x (lineTop v ln))"
        by (subst locationToPoint_loop_unfold) (simp add: mkLocation_def)
      ultimately show ?thesis by blast
    next
      case False
      with r "1.prems"(2) have x: "x = rightEdge lay'" by simp
      from "1.IH"[OF True a ok x] obtain c where
        h: "hitTest_loop f ln x lay' = Inr (mkLocation ln c)"
        and p: "locationToPoint_loop v (mkLocation ln c) lay' = Inr (mkPoint x (lineTop v ln))" by blast
      from hitTest_loop_bound[OF ok, of x] h have ne: "charColumn lay' \<noteq> c"
        by (auto simp: charColumn_def mkLocation_def)
      from True a False h have "hitTest_loop f ln x lay = Inr (mkLocation ln c)"
        by (subst hitTest_loop_unfold) simp
      moreover from True a ne p
      have "locationToPoint_loop v (mkLocation ln c) lay = Inr (mkPoint x (lineTop v ln))"
        by (subst locationToPoint_loop_unfold) (simp add: mkLocation_def)
      ultimately show ?thesis by blast
    qed
  qed
qed

lemma roundtrip_loop:
  "walkOk W f ln lay \<Longrightarrow> line loc = ln \<Longrightarrow> locationToPoint_loop v loc lay = Inr (mkPoint X Y) \<Longrightarrow>
     \<exists>c. hitTest_loop f ln X lay = Inr (mkLocation ln c) \<and>
         locationToPoint_loop v (mkLocation ln c) lay = Inr (mkPoint X Y)"
proof (induction lay rule: layoutChars.induct)
  case (1 lay)
  from locationToPoint_loop_bound[OF "1.prems"(1), of v loc] "1.prems"(2,3)
  have Y: "Y = lineTop v ln" by (auto simp: mkPoint_def)
  show ?case
  proof (cases "hasMoreChars lay")
    case False
    with "1.prems"(3) have "X = rightEdge lay"
      by (subst (asm) locationToPoint_loop_unfold) (simp add: mkPoint_def)
    from roundtrip_at_edge[OF "1.prems"(1) this] Y show ?thesis by simp
  next
    case True
    from walkOk_advance[OF "1.prems"(1) True] obtain lay' where
      a: "advanceChar lay = Inr lay'" and ok: "walkOk W f ln lay'"
      and l: "charLeft lay' = rightEdge lay" by metis
    show ?thesis
    proof (cases "charColumn lay' = column loc")
      case eq: True
      with True a l "1.prems"(3) have "X = rightEdge lay"
        by (subst (asm) locationToPoint_loop_unfold) (simp add: mkPoint_def)
      from roundtrip_at_edge[OF "1.prems"(1) this] Y show ?thesis by simp
    next
      case False
      with True a "1.prems"(3) have p': "locationToPoint_loop v loc lay' = Inr (mkPoint X Y)"
        by (subst (asm) locationToPoint_loop_unfold) simp
      from "1.IH"[OF True a ok "1.prems"(2) p'] obtain c where
        h: "hitTest_loop f ln X lay' = Inr (mkLocation ln c)"
        and p: "locationToPoint_loop v (mkLocation ln c) lay' = Inr (mkPoint X Y)" by blast
      from locationToPoint_loop_bound[OF ok, of v loc] p' have "rightEdge lay' \<le> X"
        by (auto simp: mkPoint_def)
      then have nlt: "\<not> X < rightEdge lay'" by simp
      from hitTest_loop_bound[OF ok, of X] h have ne: "charColumn lay' \<noteq> c"
        by (auto simp: charColumn_def mkLocation_def)
      from True a nlt h have "hitTest_loop f ln X lay = Inr (mkLocation ln c)"
        by (subst hitTest_loop_unfold) simp
      moreover from True a ne p
      have "locationToPoint_loop v (mkLocation ln c) lay = Inr (mkPoint X Y)"
        by (subst locationToPoint_loop_unfold) (simp add: mkLocation_def)
      ultimately show ?thesis by blast
    qed
  qed
qed

lemma walkOk_init:
  assumes fo: "font_ok fm" and fw: "fontWithin fm W" and wf: "file_wf f"
    and ln: "0 \<le> ln" "ln < lineCount f"
    and lc: "lineContent f ln = Inr lc" and nd: "noDanglingSurrogate lc"
    and lf: "lineFits W margins lc"
  obtains lay where "LineLayout_init fm margins f ln = Inr lay" and "walkOk W f ln lay"
    and "m_lineContent lay = lc" and "rightEdge lay = margin_left margins"
    and "lineLength f ln = Inr (int (length lc))"
proof -
  from file_wf_line[OF wf ln] lc have len: "lineLength f ln = Inr (int (length lc))"
    and st: "\<exists>st. lineStart f ln = Inr st" by auto
  from lc st obtain lay where i: "LineLayout_init fm margins f ln = Inr lay"
    by (auto simp: LineLayout_init_def)
  note fl = init_fields[OF i]
  from fl(6) lc have c: "m_lineContent lay = lc" by simp
  with lf have "lineFits W margins (m_lineContent lay)" by simp
  with fo fw i have inv: "layInv W lay" by (rule layInv_init)
  have ok: "walkOk W f ln lay" using inv c nd len by (simp add: walkOk_def)
  have r: "rightEdge lay = margin_left margins"
    using layInv_edges(2)[OF inv] fl by simp
  from i ok c r len show ?thesis by (rule that)
qed

lemma lineTop_plain:
  assumes rf: "rowsFit (v_font v) (m_margins v) f" and ls: "0 < effectiveLineSpacing (v_font v)"
    and ln: "0 \<le> ln" "ln < lineCount f"
  shows "lineTop v ln = effectiveLineSpacing (v_font v) * ln + margin_top (m_margins v)"
    and "sub32 (lineTop v ln) (margin_top (m_margins v)) = effectiveLineSpacing (v_font v) * ln"
    and "0 \<le> effectiveLineSpacing (v_font v) * ln"
proof -
  let ?ls = "effectiveLineSpacing (v_font v)" and ?tp = "margin_top (m_margins v)"
  from rf have r: "- (2 ^ 31) \<le> ?tp" "lineCount f * ?ls < 2 ^ 31" "?tp + lineCount f * ?ls < 2 ^ 31"
    by (simp_all add: rowsFit_def)
  from ln(2) have "ln \<le> lineCount f" by simp
  then have "ln * ?ls \<le> lineCount f * ?ls" using ls by (intro mult_right_mono) simp_all
  then have u: "?ls * ln \<le> lineCount f * ?ls" by (simp add: mult.commute)
  show p: "0 \<le> ?ls * ln" using ls ln(1) by simp
  have m: "mul32 ?ls ln = ?ls * ln"
    unfolding mul32_def using p u r(2) by (intro wrap32_nonneg) linarith+
  have a: "add32 (?ls * ln) ?tp = ?ls * ln + ?tp"
  proof -
    have "- (2 ^ 31) \<le> ?ls * ln + ?tp" using r(1) p by linarith
    moreover have "?ls * ln + ?tp < 2 ^ 31" using u r(3) by linarith
    ultimately show ?thesis unfolding add32_def by (rule wrap32_id)
  qed
  from m a show t: "lineTop v ln = ?ls * ln + ?tp" by (simp add: lineTop_def)
  have "sub32 (?ls * ln + ?tp) ?tp = ?ls * ln"
    unfolding sub32_def using p u r(2) by (simp add: wrap32_nonneg)
  with t show "sub32 (lineTop v ln) ?tp = ?ls * ln" by simp
qed

text \<open>
  Claim C3, as stated, fails.  With a font whose characters are \<open>2 ^ 30\<close> pixels wide,
  the pixel of column 2 of the line \<^verbatim>\<open>abc\<close> has wrapped around to
  \<open>- 2 ^ 31 + 4\<close>; the hit test of that pixel gives column 0, whose pixel is 4.  And on
  the line of an \<^verbatim>\<open>a\<close> and a lone high surrogate, \<open>locationToPoint\<close> of the
  location of the surrogate gives no pixel: the cursor reads past the end of the line.
\<close>

theorem roundtrip_counterexample:
  "font_ok wideFont \<and> doesPointAtChar (mkLocation 0 2) abcFile \<and>
   locationToPoint ((exView abcFile)\<lparr>v_font := wideFont\<rparr>) (mkLocation 0 2) =
     Inr (mkPoint (- 2147483644) 4) \<and>
   hitTest ((exView abcFile)\<lparr>v_font := wideFont\<rparr>) (mkPoint (- 2147483644) 4) =
     Inr (mkLocation 0 0) \<and>
   locationToPoint ((exView abcFile)\<lparr>v_font := wideFont\<rparr>) (mkLocation 0 0) =
     Inr (mkPoint 4 4) \<and>
   doesPointAtChar (mkLocation 0 1) loneFile \<and>
   locationToPoint (exView loneFile) (mkLocation 0 1) = Inl IndexOutOfRange"
proof -
  have "font_ok wideFont" by (simp add: font_ok_def wideFont_def)
  moreover have "doesPointAtChar (mkLocation 0 2) abcFile" by code_simp
  moreover have "locationToPoint ((exView abcFile)\<lparr>v_font := wideFont\<rparr>) (mkLocation 0 2) =
     Inr (mkPoint (- 2147483644) 4)" by code_simp
  moreover have "hitTest ((exView abcFile)\<lparr>v_font := wideFont\<rparr>) (mkPoint (- 2147483644) 4) =
     Inr (mkLocation 0 0)" by code_simp
  moreover have "locationToPoint ((exView abcFile)\<lparr>v_font := wideFont\<rparr>) (mkLocation 0 0) =
     Inr (mkPoint 4 4)" by code_simp
  moreover have "doesPointAtChar (mkLocation 0 1) loneFile" by code_simp
  moreover have "locationToPoint (exView loneFile) (mkLocation 0 1) = Inl IndexOutOfRange" by code_simp
  ultimately show ?thesis by blast
qed

text \<open>
  Claim C3, amended.  Take a font with a positive space width and line height, no negative
  width and no run of one or two code units or tab stop wider than \<open>W\<close>; a well-formed
  file whose number of lines times the line height, alone and after the top margin, is
  below \<open>2 ^ 31\<close>; and a location that points at a character of a line that does not end
  in a lone high surrogate and whose length times \<open>W\<close>, alone and after the left
  margin, is below \<open>2 ^ 31\<close>.  Then \<open>locationToPoint\<close> gives a pixel, \<open>hitTest\<close>
  of that pixel gives a location, and \<open>locationToPoint\<close> of that location gives the same
  pixel again.
\<close>

theorem locationToPoint_hitTest_roundtrip:
  assumes fo: "font_ok (v_font v)" and fw: "fontWithin (v_font v) W"
    and mf: "m_file v = Some f" and wf: "file_wf f"
    and pc: "doesPointAtChar loc f"
    and lc: "lineContent f (line loc) = Inr lc" and nd: "noDanglingSurrogate lc"
    and lf: "lineFits W (m_margins v) lc" and rf: "rowsFit (v_font v) (m_margins v) f"
  shows "\<exists>P loc'. locationToPoint v loc = Inr P \<and> hitTest v P = Inr loc' \<and>
                  locationToPoint v loc' = Inr P"
proof -
  let ?ln = "line loc"
  from pc have nn: "\<not> isNull loc" and ln: "0 \<le> ?ln" "?ln < lineCount f"
    by (simp_all add: doesPointAtChar_def)
  from walkOk_init[OF fo fw wf ln lc nd lf] obtain lay where
    i: "LineLayout_init (v_font v) (m_margins v) f ?ln = Inr lay" and ok: "walkOk W f ?ln lay" by metis
  from locationToPoint_loop_bound[OF ok, of v loc] obtain X where
    p: "locationToPoint_loop v loc lay = Inr (mkPoint X (lineTop v ?ln))" by blast
  let ?P = "mkPoint X (lineTop v ?ln)"
  have 1: "locationToPoint v loc = Inr ?P"
    using mf nn ln i p by (simp add: locationToPoint_def)
  from roundtrip_loop[OF ok refl p] obtain c where
    h: "hitTest_loop f ?ln X lay = Inr (mkLocation ?ln c)"
    and p': "locationToPoint_loop v (mkLocation ?ln c) lay = Inr ?P" by blast
  from fo have ls: "0 < effectiveLineSpacing (v_font v)" by (simp add: font_ok_def)
  note lt = lineTop_plain[OF rf ls ln]
  have d: "cdiv (sub32 (pt_y ?P) (margin_top (m_margins v))) (effectiveLineSpacing (v_font v)) = Inr ?ln"
    using lt(2) cdiv_nonneg[OF lt(3) ls] ls by (simp add: mkPoint_def)
  have 2: "hitTest v ?P = Inr (mkLocation ?ln c)"
    using mf d ln i h by (simp add: hitTest_def) (simp add: mkPoint_def)
  have 3: "locationToPoint v (mkLocation ?ln c) = Inr ?P"
    using mf ln i p' by (simp add: locationToPoint_def isNull_def mkLocation_def)
  from 1 2 3 show ?thesis by blast
qed

theorem locationToPoint_hitTest_roundtrip_witness:
  "font_ok (v_font (exView tabFile)) \<and> fontWithin (v_font (exView tabFile)) 56 \<and>
   file_wf tabFile \<and> doesPointAtChar (mkLocation 0 2) tabFile \<and>
   lineContent tabFile 0 = Inr [tabChar, 0x61, tabChar] \<and>
   noDanglingSurrogate [tabChar, 0x61, tabChar] \<and>
   lineFits 56 (m_margins (exView tabFile)) [tabChar, 0x61, tabChar] \<and>
   rowsFit (v_font (exView tabFile)) (m_margins (exView tabFile)) tabFile \<and>
   locationToPoint (exView tabFile) (mkLocation 0 2) = Inr (mkPoint 67 4) \<and>
   hitTest (exView tabFile) (mkPoint 67 4) = Inr (mkLocation 0 2)"
proof -
  have fo: "font_ok (v_font (exView tabFile))" by (simp add: font_ok_def exFont_def exView_def)
  have fw: "fontWithin (v_font (exView tabFile)) 56"
    by (simp add: fontWithin_def exFont_def exView_def kTabStopSize_def)
  have mf: "m_file (exView tabFile) = Some tabFile" by (simp add: exView_def)
  have wf: "file_wf tabFile" by code_simp
  have pc: "doesPointAtChar (mkLocation 0 2) tabFile" by code_simp
  have lc: "lineContent tabFile (line (mkLocation 0 2)) = Inr [tabChar, 0x61, tabChar]" by code_simp
  have nd: "noDanglingSurrogate [tabChar, 0x61, tabChar]" by code_simp
  have lf: "lineFits 56 (m_margins (exView tabFile)) [tabChar, 0x61, tabChar]" by code_simp
  have rf: "rowsFit (v_font (exView tabFile)) (m_margins (exView tabFile)) tabFile" by code_simp
  have a: "locationToPoint (exView tabFile) (mkLocation 0 2) = Inr (mkPoint 67 4)" by code_simp
  have b: "hitTest (exView tabFile) (mkPoint 67 4) = Inr (mkLocation 0 2)" by code_simp
  have l: "line (mkLocation 0 2) = 0" by (simp add: mkLocation_def)
  from locationToPoint_hitTest_roundtrip[OF fo fw mf wf pc lc nd lf rf] fo fw wf pc lc nd lf rf a b l
  show ?thesis by simp
qed

lemma div_lt_of_lt_mult:
  fixes y n ls :: int
  assumes "y < n * ls" "0 < ls"
  shows "y div ls < n"
proof -
  have "y div ls * ls + y mod ls = y" by simp
  moreover have "0 \<le> y mod ls" using assms(2) by simp
  ultimately have "y div ls * ls < n * ls" using assms(1) by linarith
  then show ?thesis using assms(2) by (simp add: mult_less_cancel_right)
qed

lemma div_ge_of_mult_le:
  fixes y n ls :: int
  assumes "n * ls \<le> y" "0 < ls"
  shows "n \<le> y div ls"
proof -
  have "(n * ls) div ls \<le> y div ls" using assms by (intro zdiv_mono1) simp_all
  then show ?thesis using assms(2) by simp
qed

lemma neg_div_ge_one:
  fixes y ls :: int
  assumes "y \<le> - ls" "0 < ls"
  shows "1 \<le> \<bar>y\<bar> div ls"
proof -
  from assms have "ls \<le> \<bar>y\<bar>" by simp
  then have "ls div ls \<le> \<bar>y\<bar> div ls" using assms(2) by (intro zdiv_mono1) simp_all
  then show ?thesis using assms(2) by simp
qed

lemma hitTest_loop_find:
  "layoutChars lay = Inr chars \<Longrightarrow> lineLength f ln = Inr n \<Longrightarrow>
     hitTest_loop f ln x lay =
       Inr (mkLocation ln (case find (\<lambda>c. x < rightEdge c) chars of
                             None \<Rightarrow> n | Some c \<Rightarrow> charColumn c))"
proof (induction lay arbitrary: chars rule: layoutChars.induct)
  case (1 lay)
  show ?case
  proof (cases "hasMoreChars lay")
    case False
    with "1.prems"(1) have "chars = []" by (subst (asm) layoutChars.simps) simp
    with False "1.prems"(2) show ?thesis by (subst hitTest_loop_unfold) simp
  next
    case True
    with "1.prems"(1) obtain lay' rest where
      a: "advanceChar lay = Inr lay'" and r: "layoutChars lay' = Inr rest" and c: "chars = lay' # rest"
      by (subst (asm) layoutChars.simps) (auto split: sum.splits)
    from "1.IH"[OF True a r "1.prems"(2)] True a c show ?thesis
      by (subst hitTest_loop_unfold) simp
  qed
qed

lemma find_span:
  "(\<forall>k. k + 1 < length cs \<longrightarrow> charLeft (cs ! (k + 1)) = charLeft (cs ! k) + charWidth (cs ! k)) \<Longrightarrow>
   (cs \<noteq> [] \<longrightarrow> charLeft (cs ! 0) \<le> x) \<Longrightarrow>
   find (\<lambda>c. x < charLeft c + charWidth c) cs =
   find (\<lambda>c. charLeft c \<le> x \<and> x < charLeft c + charWidth c) cs"
proof (induction cs)
  case Nil
  show ?case by simp
next
  case (Cons c cs)
  from Cons.prems(2) have l: "charLeft c \<le> x" by simp
  show ?case
  proof (cases "x < charLeft c + charWidth c")
    case True
    with l show ?thesis by simp
  next
    case False
    have s: "\<forall>k. k + 1 < length cs \<longrightarrow> charLeft (cs ! (k + 1)) = charLeft (cs ! k) + charWidth (cs ! k)"
    proof (intro allI impI)
      fix k assume "k + 1 < length cs"
      then have "Suc k + 1 < length (c # cs)" by simp
      with Cons.prems(1) have "charLeft ((c # cs) ! (Suc k + 1)) =
          charLeft ((c # cs) ! Suc k) + charWidth ((c # cs) ! Suc k)" by blast
      then show "charLeft (cs ! (k + 1)) = charLeft (cs ! k) + charWidth (cs ! k)" by simp
    qed
    have h: "cs \<noteq> [] \<longrightarrow> charLeft (cs ! 0) \<le> x"
    proof
      assume "cs \<noteq> []"
      then have "0 + 1 < length (c # cs)" by (cases cs) simp_all
      with Cons.prems(1) have "charLeft ((c # cs) ! (0 + 1)) =
          charLeft ((c # cs) ! 0) + charWidth ((c # cs) ! 0)" by blast
      with False show "charLeft (cs ! 0) \<le> x" by simp
    qed
    from Cons.IH[OF s h] False show ?thesis by simp
  qed
qed

lemma hitTest_in_line:
  assumes fo: "font_ok (v_font v)" and fw: "fontWithin (v_font v) W"
    and mf: "m_file v = Some f" and wf: "file_wf f"
    and y0: "0 \<le> pt_y pixel - margin_top (m_margins v)"
    and y1: "pt_y pixel - margin_top (m_margins v) < lineCount f * effectiveLineSpacing (v_font v)"
    and y2: "pt_y pixel - margin_top (m_margins v) < 2 ^ 31"
    and ln: "ln = (pt_y pixel - margin_top (m_margins v)) div effectiveLineSpacing (v_font v)"
    and lc: "lineContent f ln = Inr lc" and nd: "noDanglingSurrogate lc"
    and lf: "lineFits W (m_margins v) lc"
  shows "\<exists>chars. layoutLine (v_font v) (m_margins v) f ln = Inr chars \<and>
           lineLength f ln = Inr (int (length lc)) \<and>
           (pt_x pixel < margin_left (m_margins v) \<longrightarrow> hitTest v pixel = Inr (mkLocation ln 0)) \<and>
           (margin_left (m_margins v) \<le> pt_x pixel \<longrightarrow>
              hitTest v pixel =
                Inr (mkLocation ln
                  (case find (\<lambda>c. charLeft c \<le> pt_x pixel \<and> pt_x pixel < charLeft c + charWidth c) chars of
                     Some c \<Rightarrow> charColumn c | None \<Rightarrow> int (length lc))))"
proof -
  let ?ls = "effectiveLineSpacing (v_font v)" and ?y = "pt_y pixel - margin_top (m_margins v)"
  let ?x = "pt_x pixel"
  from fo have ls: "0 < ?ls" by (simp add: font_ok_def)
  have sb: "sub32 (pt_y pixel) (margin_top (m_margins v)) = ?y"
    unfolding sub32_def using y0 y2 by (rule wrap32_nonneg)
  have d: "cdiv (sub32 (pt_y pixel) (margin_top (m_margins v))) ?ls = Inr ln"
    using cdiv_nonneg[OF y0 ls] ln sb by simp
  have l0: "0 \<le> ln" using y0 ls ln by (simp add: pos_imp_zdiv_nonneg_iff)
  have l1: "ln < lineCount f"
  proof -
    have "?y div ?ls < lineCount f" using y1 ls by (rule div_lt_of_lt_mult)
    then show ?thesis using ln by simp
  qed
  from walkOk_init[OF fo fw wf l0 l1 lc nd lf] obtain lay where
    i: "LineLayout_init (v_font v) (m_margins v) f ln = Inr lay" and ok: "walkOk W f ln lay"
    and mc: "m_lineContent lay = lc" and re: "rightEdge lay = margin_left (m_margins v)"
    and len: "lineLength f ln = Inr (int (length lc))" by metis
  from ok have inv: "layInv W lay" and nd': "noDanglingSurrogate (m_lineContent lay)"
    by (simp_all add: walkOk_def)
  from layoutChars_total[OF inv nd'] obtain chars where c: "layoutChars lay = Inr chars" ..
  have ll: "layoutLine (v_font v) (m_margins v) f ln = Inr chars"
    using i c by (simp add: layoutLine_def)
  have edge: "rightEdge ch = charLeft ch + charWidth ch" if "ch \<in> set chars" for ch
  proof -
    from that obtain k where "k < length chars" "ch = chars ! k" by (auto simp: in_set_conv_nth)
    with layoutChars_layInv[OF c inv] have "layInv W ch" by simp
    then show ?thesis by (rule layInv_edges(3))
  qed
  have "find (\<lambda>c. ?x < rightEdge c) chars = find (\<lambda>c. ?x < charLeft c + charWidth c) chars"
    using edge by (intro find_cong) simp_all
  with hitTest_loop_find[OF c len, of ?x]
  have hl: "hitTest_loop f ln ?x lay =
       Inr (mkLocation ln (case find (\<lambda>c. ?x < charLeft c + charWidth c) chars of
                             None \<Rightarrow> int (length lc) | Some c \<Rightarrow> charColumn c))" by simp
  have h: "hitTest v pixel =
       Inr (mkLocation ln (case find (\<lambda>c. ?x < charLeft c + charWidth c) chars of
                             None \<Rightarrow> int (length lc) | Some c \<Rightarrow> charColumn c))"
    using mf d l0 l1 i hl by (simp add: hitTest_def)
  note fl = init_fields[OF i]
  have step: "\<forall>k. k + 1 < length chars \<longrightarrow>
      charLeft (chars ! (k + 1)) = charLeft (chars ! k) + charWidth (chars ! k)"
    using layoutChars_left_step[OF c inv] by blast
  have first: "charLeft (chars ! 0) = margin_left (m_margins v) \<and> charColumn (chars ! 0) = 0 \<and>
               0 \<le> charWidth (chars ! 0)" if ne: "chars \<noteq> []"
  proof -
    from ne have k: "0 < length chars" by simp
    from layoutChars_nth[OF c k] have more: "hasMoreChars lay" and a: "advanceChar lay = Inr (chars ! 0)"
      by simp_all
    from walkOk_advance[OF ok more] a re obtain
      "charLeft (chars ! 0) = margin_left (m_margins v)" "charColumn (chars ! 0) = nextCharIndex lay"
      by (metis sum.inject(2))
    moreover have "0 \<le> charWidth (chars ! 0)"
      using layoutChars_layInv[OF c inv k] by (simp add: layInv_def charWidth_def)
    ultimately show ?thesis using fl(3,5) by (simp add: nextCharIndex_def)
  qed
  have left: "hitTest v pixel = Inr (mkLocation ln 0)" if x: "?x < margin_left (m_margins v)"
  proof (cases chars)
    case Nil
    with c have "\<not> hasMoreChars lay"
      by (subst (asm) layoutChars.simps) (auto split: if_splits sum.splits)
    with fl(3,5) mc have "length lc = 0" by (simp add: hasMoreChars_def nextCharIndex_def)
    with h Nil show ?thesis by simp
  next
    case (Cons a rest)
    with first have "charLeft a = margin_left (m_margins v)" "charColumn a = 0" "0 \<le> charWidth a"
      by simp_all
    with h Cons x show ?thesis by simp
  qed
  have right: "hitTest v pixel =
                Inr (mkLocation ln
                  (case find (\<lambda>c. charLeft c \<le> ?x \<and> ?x < charLeft c + charWidth c) chars of
                     Some c \<Rightarrow> charColumn c | None \<Rightarrow> int (length lc)))"
    if x: "margin_left (m_margins v) \<le> ?x"
  proof -
    have "chars \<noteq> [] \<longrightarrow> charLeft (chars ! 0) \<le> ?x" using first x by simp
    from find_span[OF step this] h show ?thesis by (simp split: option.splits)
  qed
  from ll len left right show ?thesis by blast
qed

text \<open>
  Claim C4, amended.  Take a font with a positive space width and line height and no
  negative width, and a pixel whose row minus the top margin is in the range of an
  \<open>int\<close>.  \<open>hitTest\<close> returns (0, 0) when the pixel is at least one line height above
  the top of the first line, and (lineCount, 0) when it is below the last line.  When the
  row of the pixel is in a line \<open>ln\<close> of a well-formed file, a line that does not end in
  a lone high surrogate and whose length times \<open>W\<close>, alone and after the left margin, is
  below \<open>2 ^ 31\<close> for a bound \<open>W\<close> on the width of every run of one or two code
  units and of the tab stop, it returns column 0 of \<open>ln\<close> when the pixel is left of the
  left margin, and otherwise the column of the first character of the line whose pixel
  span contains the pixel's column, or the length of the line when no character's span
  does.
\<close>

theorem hitTest_clamping:
  assumes fo: "font_ok (v_font v)" and mf: "m_file v = Some f"
    and ylo: "- (2 ^ 31) \<le> pt_y pixel - margin_top (m_margins v)"
    and yhi: "pt_y pixel - margin_top (m_margins v) < 2 ^ 31"
  shows "(pt_y pixel - margin_top (m_margins v) \<le> - effectiveLineSpacing (v_font v) \<longrightarrow>
            hitTest v pixel = Inr (mkLocation 0 0)) \<and>
         (lineCount f * effectiveLineSpacing (v_font v) \<le> pt_y pixel - margin_top (m_margins v) \<longrightarrow>
            hitTest v pixel = Inr (mkLocation (lineCount f) 0)) \<and>
         (file_wf f \<and> 0 \<le> pt_y pixel - margin_top (m_margins v) \<and>
          pt_y pixel - margin_top (m_margins v) < lineCount f * effectiveLineSpacing (v_font v) \<and>
          ln = (pt_y pixel - margin_top (m_margins v)) div effectiveLineSpacing (v_font v) \<and>
          lineContent f ln = Inr lc \<and> noDanglingSurrogate lc \<and>
          fontWithin (v_font v) W \<and> lineFits W (m_margins v) lc \<longrightarrow>
            (\<exists>chars. layoutLine (v_font v) (m_margins v) f ln = Inr chars \<and>
               lineLength f ln = Inr (int (length lc)) \<and>
               (pt_x pixel < margin_left (m_margins v) \<longrightarrow> hitTest v pixel = Inr (mkLocation ln 0)) \<and>
               (margin_left (m_margins v) \<le> pt_x pixel \<longrightarrow>
                  hitTest v pixel =
                    Inr (mkLocation ln
                      (case find (\<lambda>c. charLeft c \<le> pt_x pixel \<and> pt_x pixel < charLeft c + charWidth c) chars of
                         Some c \<Rightarrow> charColumn c | None \<Rightarrow> int (length lc))))))"
proof (intro conjI impI)
  let ?ls = "effectiveLineSpacing (v_font v)" and ?y = "pt_y pixel - margin_top (m_margins v)"
  from fo have ls: "0 < ?ls" by (simp add: font_ok_def)
  have sb: "sub32 (pt_y pixel) (margin_top (m_margins v)) = ?y"
    unfolding sub32_def using ylo yhi by (rule wrap32_id)
  {
    assume a: "?y \<le> - ?ls"
    then have "1 \<le> \<bar>?y\<bar> div ?ls" using ls by (rule neg_div_ge_one)
    moreover from a ls have "?y < 0" by linarith
    moreover have "?y \<noteq> - 1 \<or> ?ls \<noteq> - 1" using ls by simp
    ultimately have "\<exists>q. cdiv ?y ?ls = Inr q \<and> q < 0"
      using ls by (simp add: cdiv_def sgn_if)
    then show "hitTest v pixel = Inr (mkLocation 0 0)"
      using mf sb by (auto simp: hitTest_def)
  }
  {
    assume a: "lineCount f * ?ls \<le> ?y"
    have c0: "0 \<le> lineCount f" by (simp add: lineCount_def)
    with ls a have y0: "0 \<le> ?y" by (meson mult_nonneg_nonneg less_imp_le order_trans)
    have "lineCount f \<le> ?y div ?ls" using a ls by (rule div_ge_of_mult_le)
    moreover have "cdiv ?y ?ls = Inr (?y div ?ls)" using y0 ls by (rule cdiv_nonneg)
    ultimately show "hitTest v pixel = Inr (mkLocation (lineCount f) 0)"
      using mf c0 sb by (simp add: hitTest_def)
  }
  {
    assume h: "file_wf f \<and> 0 \<le> ?y \<and> ?y < lineCount f * ?ls \<and> ln = ?y div ?ls \<and>
          lineContent f ln = Inr lc \<and> noDanglingSurrogate lc \<and>
          fontWithin (v_font v) W \<and> lineFits W (m_margins v) lc"
    then show "\<exists>chars. layoutLine (v_font v) (m_margins v) f ln = Inr chars \<and>
               lineLength f ln = Inr (int (length lc)) \<and>
               (pt_x pixel < margin_left (m_margins v) \<longrightarrow> hitTest v pixel = Inr (mkLocation ln 0)) \<and>
               (margin_left (m_margins v) \<le> pt_x pixel \<longrightarrow>
                  hitTest v pixel =
                    Inr (mkLocation ln
                      (case find (\<lambda>c. charLeft c \<le> pt_x pixel \<and> pt_x pixel < charLeft c + charWidth c) chars of
                         Some c \<Rightarrow> charColumn c | None \<Rightarrow> int (length lc))))"
      using hitTest_in_line[OF fo _ mf, of W pixel ln lc] yhi by blast
  }
qed

theorem hitTest_clamping_witness:
  "font_ok (v_font (exView fiveLineFile)) \<and> lineCount fiveLineFile = 5 \<and>
   hitTest (exView fiveLineFile) (mkPoint 10 (- 20)) = Inr (mkLocation 0 0) \<and>
   hitTest (exView fiveLineFile) (mkPoint 10 500) = Inr (mkLocation 5 0) \<and>
   file_wf tabFile \<and> lineContent tabFile 0 = Inr [tabChar, 0x61, tabChar] \<and>
   noDanglingSurrogate [tabChar, 0x61, tabChar] \<and>
   fontWithin (v_font (exView tabFile)) 56 \<and>
   lineFits 56 (m_margins (exView tabFile)) [tabChar, 0x61, tabChar] \<and>
   (\<exists>chars. layoutLine (v_font (exView tabFile)) (m_margins (exView tabFile)) tabFile 0 = Inr chars \<and>
      hitTest (exView tabFile) (mkPoint 62 5) =
        Inr (mkLocation 0
          (case find (\<lambda>c. charLeft c \<le> 62 \<and> 62 < charLeft c + charWidth c) chars of
             Some c \<Rightarrow> charColumn c | None \<Rightarrow> int (length [tabChar, 0x61, tabChar])))) \<and>
   hitTest (exView tabFile) (mkPoint 62 5) = Inr (mkLocation 0 1) \<and>
   hitTest (exView tabFile) (mkPoint 1000 5) = Inr (mkLocation 0 3) \<and>
   hitTest (exView tabFile) (mkPoint 0 5) = Inr (mkLocation 0 0)"
proof -
  have fo5: "font_ok (v_font (exView fiveLineFile))" by (simp add: font_ok_def exFont_def exView_def)
  have mf5: "m_file (exView fiveLineFile) = Some fiveLineFile" by (simp add: exView_def)
  have fo: "font_ok (v_font (exView tabFile))" by (simp add: font_ok_def exFont_def exView_def)
  have fw: "fontWithin (v_font (exView tabFile)) 56"
    by (simp add: fontWithin_def exFont_def exView_def kTabStopSize_def)
  have mf: "m_file (exView tabFile) = Some tabFile" by (simp add: exView_def)
  have n5: "lineCount fiveLineFile = 5" by code_simp
  have y: "pt_y (mkPoint 10 (- 20)) - margin_top (m_margins (exView fiveLineFile))
             \<le> - effectiveLineSpacing (v_font (exView fiveLineFile))"
    "lineCount fiveLineFile * effectiveLineSpacing (v_font (exView fiveLineFile))
             \<le> pt_y (mkPoint 10 500) - margin_top (m_margins (exView fiveLineFile))"
    by (simp_all add: n5) (simp_all add: mkPoint_def exView_def exMargins_def exFont_def)
  have r1: "- (2 ^ 31) \<le> pt_y (mkPoint 10 (- 20)) - margin_top (m_margins (exView fiveLineFile))"
    "pt_y (mkPoint 10 (- 20)) - margin_top (m_margins (exView fiveLineFile)) < 2 ^ 31"
    by (simp_all add: mkPoint_def exView_def exMargins_def)
  have r2: "- (2 ^ 31) \<le> pt_y (mkPoint 10 500) - margin_top (m_margins (exView fiveLineFile))"
    "pt_y (mkPoint 10 500) - margin_top (m_margins (exView fiveLineFile)) < 2 ^ 31"
    by (simp_all add: mkPoint_def exView_def exMargins_def)
  have r3: "- (2 ^ 31) \<le> pt_y (mkPoint 62 5) - margin_top (m_margins (exView tabFile))"
    "pt_y (mkPoint 62 5) - margin_top (m_margins (exView tabFile)) < 2 ^ 31"
    by (simp_all add: mkPoint_def exView_def exMargins_def)
  from hitTest_clamping[OF fo5 mf5 r1, of 0 "[]" 0] y(1)
  have a: "hitTest (exView fiveLineFile) (mkPoint 10 (- 20)) = Inr (mkLocation 0 0)" by blast
  from hitTest_clamping[OF fo5 mf5 r2, of 0 "[]" 0] y(2) n5
  have b: "hitTest (exView fiveLineFile) (mkPoint 10 500) = Inr (mkLocation 5 0)" by simp
  have wf: "file_wf tabFile" by code_simp
  have lc: "lineContent tabFile 0 = Inr [tabChar, 0x61, tabChar]" by code_simp
  have nd: "noDanglingSurrogate [tabChar, 0x61, tabChar]" by code_simp
  have lf: "lineFits 56 (m_margins (exView tabFile)) [tabChar, 0x61, tabChar]" by code_simp
  have row: "0 \<le> pt_y (mkPoint 62 5) - margin_top (m_margins (exView tabFile))"
    "pt_y (mkPoint 62 5) - margin_top (m_margins (exView tabFile))
       < lineCount tabFile * effectiveLineSpacing (v_font (exView tabFile))"
    "(0::int) = (pt_y (mkPoint 62 5) - margin_top (m_margins (exView tabFile)))
       div effectiveLineSpacing (v_font (exView tabFile))"
    "margin_left (m_margins (exView tabFile)) \<le> pt_x (mkPoint 62 5)"
    by code_simp+
  let ?v = "exView tabFile" and ?p = "mkPoint 62 5" and ?lc = "[tabChar, 0x61, tabChar]"
  have imp: "file_wf tabFile \<and> 0 \<le> pt_y ?p - margin_top (m_margins ?v) \<and>
          pt_y ?p - margin_top (m_margins ?v) < lineCount tabFile * effectiveLineSpacing (v_font ?v) \<and>
          (0::int) = (pt_y ?p - margin_top (m_margins ?v)) div effectiveLineSpacing (v_font ?v) \<and>
          lineContent tabFile 0 = Inr ?lc \<and> noDanglingSurrogate ?lc \<and>
          fontWithin (v_font ?v) 56 \<and> lineFits 56 (m_margins ?v) ?lc \<longrightarrow>
            (\<exists>chars. layoutLine (v_font ?v) (m_margins ?v) tabFile 0 = Inr chars \<and>
               lineLength tabFile 0 = Inr (int (length ?lc)) \<and>
               (pt_x ?p < margin_left (m_margins ?v) \<longrightarrow> hitTest ?v ?p = Inr (mkLocation 0 0)) \<and>
               (margin_left (m_margins ?v) \<le> pt_x ?p \<longrightarrow>
                  hitTest ?v ?p =
                    Inr (mkLocation 0
                      (case find (\<lambda>c. charLeft c \<le> pt_x ?p \<and> pt_x ?p < charLeft c + charWidth c) chars of
                         Some c \<Rightarrow> charColumn c | None \<Rightarrow> int (length ?lc)))))"
    using hitTest_clamping[OF fo mf r3, of 0 ?lc 56] by (elim conjE)
  have prem: "file_wf tabFile \<and> 0 \<le> pt_y ?p - margin_top (m_margins ?v) \<and>
          pt_y ?p - margin_top (m_margins ?v) < lineCount tabFile * effectiveLineSpacing (v_font ?v) \<and>
          (0::int) = (pt_y ?p - margin_top (m_margins ?v)) div effectiveLineSpacing (v_font ?v) \<and>
          lineContent tabFile 0 = Inr ?lc \<and> noDanglingSurrogate ?lc \<and>
          fontWithin (v_font ?v) 56 \<and> lineFits 56 (m_margins ?v) ?lc"
    using wf row(1,2,3) lc nd fw lf by (intro conjI)
  from imp prem obtain chars where
    cl: "layoutLine (v_font ?v) (m_margins ?v) tabFile 0 = Inr chars"
    and ch: "margin_left (m_margins ?v) \<le> pt_x ?p \<longrightarrow>
                  hitTest ?v ?p =
                    Inr (mkLocation 0
                      (case find (\<lambda>c. charLeft c \<le> pt_x ?p \<and> pt_x ?p < charLeft c + charWidth c) chars of
                         Some c \<Rightarrow> charColumn c | None \<Rightarrow> int (length ?lc)))"
    by blast
  have px: "pt_x ?p = 62" by (simp add: mkPoint_def)
  from ch row(4) have "hitTest ?v ?p =
        Inr (mkLocation 0
          (case find (\<lambda>c. charLeft c \<le> 62 \<and> 62 < charLeft c + charWidth c) chars of
             Some c \<Rightarrow> charColumn c | None \<Rightarrow> int (length [tabChar, 0x61, tabChar])))"
    unfolding px by simp
  with cl have c0: "\<exists>chars. layoutLine (v_font (exView tabFile)) (m_margins (exView tabFile)) tabFile 0 = Inr chars \<and>
      hitTest (exView tabFile) (mkPoint 62 5) =
        Inr (mkLocation 0
          (case find (\<lambda>c. charLeft c \<le> 62 \<and> 62 < charLeft c + charWidth c) chars of
             Some c \<Rightarrow> charColumn c | None \<Rightarrow> int (length [tabChar, 0x61, tabChar])))"
    by blast
  have c: "hitTest (exView tabFile) (mkPoint 62 5) = Inr (mkLocation 0 1)" by code_simp
  have d: "hitTest (exView tabFile) (mkPoint 1000 5) = Inr (mkLocation 0 3)" by code_simp
  have e: "hitTest (exView tabFile) (mkPoint 0 5) = Inr (mkLocation 0 0)" by code_simp
  from fo5 n5 a b wf lc nd fw lf c0 c d e show ?thesis by blast
qed

text \<open>
  Claim C4, as stated, fails.  The pixel (70, 3) lies above the first line, which starts at
  row 4, and \<open>hitTest\<close> returns column 2 of line 0 for it, not (0, 0): the division by the
  line height truncates towards zero.  The pixel (0, 17) lies in the row of line 1, whose
  only character spans the pixels from 4 to 11, so no character's span contains it, and
  \<open>hitTest\<close> returns column 0, not the column 1 past the last character.  The pixel in
  the least row of all lies above the first line, and \<open>hitTest\<close> returns (5, 0) on a
  file of five lines: the row minus the top margin wraps around.  With characters
  \<open>2 ^ 30\<close> pixels wide the pixel \<open>2 ^ 30 + 10\<close> lies in the span of column 1 of
  \<^verbatim>\<open>abc\<close>, whose right edge has wrapped around, and \<open>hitTest\<close> returns column 3.
  On a line that ends in a lone high surrogate the hit test of a pixel right of the text
  returns no location.
\<close>

theorem hitTest_clamping_counterexample:
  "pt_y (mkPoint 70 3) < lineTop (exView tabFile) 0 \<and>
   hitTest (exView tabFile) (mkPoint 70 3) = Inr (mkLocation 0 2) \<and>
   hitTest (exView tabFile) (mkPoint 70 3) \<noteq> Inr (mkLocation 0 0) \<and>
   map_sum id (map (\<lambda>c. (charColumn c, charLeft c, charWidth c)))
     (layoutLine exFont exMargins tabFile 1) = Inr [(0, 4, 7)] \<and>
   lineLength tabFile 1 = Inr 1 \<and>
   hitTest (exView tabFile) (mkPoint 0 17) = Inr (mkLocation 1 0) \<and>
   hitTest (exView tabFile) (mkPoint 0 17) \<noteq> Inr (mkLocation 1 1) \<and>
   pt_y (mkPoint 10 (- 2147483648)) < lineTop (exView fiveLineFile) 0 \<and>
   hitTest (exView fiveLineFile) (mkPoint 10 (- 2147483648)) = Inr (mkLocation 5 0) \<and>
   map_sum id (map (\<lambda>c. (charColumn c, charLeft c, charWidth c)))
     (layoutLine wideFont exMargins abcFile 0) =
     Inr [(0, 4, 1073741824), (1, 1073741828, 1073741824), (2, - 2147483644, 1073741824)] \<and>
   hitTest ((exView abcFile)\<lparr>v_font := wideFont\<rparr>) (mkPoint 1073741834 5) = Inr (mkLocation 0 3) \<and>
   lineContent loneFile 0 = Inr [0x61, 0xD83D] \<and>
   hitTest (exView loneFile) (mkPoint 1000 5) = Inl IndexOutOfRange"
  by code_simp

section \<open>Properties of the color overlay\<close>

















section \<open>Properties of the pointer events\<close>

lemma isEmpty_emptyRange: "isEmpty emptyRange"
  by (simp add: isEmpty_def emptyRange_def mkRange_def)

text \<open>
  Claim C9, as stated, fails.  With the word \<^verbatim>\<open>foo_bar\<close> selected by a press and two
  symbols at its location, the release of the button on the same word only clears the
  selection and schedules a repaint: it navigates nowhere and presents no menu.
\<close>

theorem click_on_ambiguous_symbol_counterexample:
  "map_sum id snd (mousePressEvent (exView wordExample) (mkPoint 40 5)) = Inr [Update] \<and>
   map_sum id (m_selection \<circ> fst) (mousePressEvent (exView wordExample) (mkPoint 40 5)) =
     Inr (m_selection selectedView) \<and>
   symbolsAtSelection (exProject [''foo_bar(int)'', ''foo_bar(char)'']) selectedView =
     [''foo_bar(int)'', ''foo_bar(char)''] \<and>
   map_sum id snd (mouseReleaseEvent (exProject [''foo_bar(int)'', ''foo_bar(char)'']) selectedView
                     (mkPoint 40 5)) = Inr [Update]"
  by code_simp

lemma symbolMenuItems_mem:
  "s \<in> set symbols \<Longrightarrow>
     MenuAction s False None \<in> set (symbolMenuItems symbols) \<and>
     MenuAction ''Cross-references...'' True (Some s) \<in> set (symbolMenuItems symbols)"
  by (induction symbols) auto

lemma mouseReleaseEvent_actions:
  assumes "mouseReleaseEvent project v pos = Inr (v', acts)"
  shows "(\<forall>items. ExecMenu items \<notin> set acts) \<and>
         ((\<exists>r. NavigateToRef r \<in> set acts) \<longleftrightarrow>
            (\<not> isEmpty (m_selection v) \<and> findWordAtPoint v pos = Inr (m_selection v) \<and>
             length (symbolsAtSelection project v) = 1)) \<and>
         (\<forall>r. NavigateToRef r \<in> set acts \<longrightarrow>
            r = findSingleDefinitionOfSymbol project (symbolsAtSelection project v ! 0))"
  using assms isEmpty_emptyRange
  by (auto simp: mouseReleaseEvent_def symbolsAtSelection_def Let_def
           split: if_splits sum.splits)

lemma contextMenuEvent_actions:
  assumes "contextMenuEvent project backEnabled forwardEnabled v pos = Inr (v', acts)"
  shows "\<exists>items. acts = [ExecMenu items, Update] \<and>
           (\<not> isEmpty (m_selection v') \<longrightarrow>
              items = (if symbolsAtSelection project v' = []
                       then [MenuAction ''No symbols found'' False None]
                       else symbolMenuItems (symbolsAtSelection project v')))"
  using assms
  by (auto simp: contextMenuEvent_def symbolsAtSelection_def Let_def
           split: if_splits sum.splits)

text \<open>
  Claim C9, amended.  A mouse release never presents a menu.  It navigates exactly when
  the selection is not empty, the word under the pointer is the selection and the index
  reports exactly one symbol at the start of the selection, and then to the definition of
  that symbol; with no symbol or more than one it does not navigate.  A context menu event
  presents one menu; when a word remains selected, the menu is the entry
  \<^verbatim>\<open>No symbols found\<close> if the index reports no symbol there, and otherwise lists every
  reported symbol with an entry for its cross-references.
\<close>

theorem click_navigates_on_unique_symbol:
  "(mouseReleaseEvent project v pos = Inr (v', acts) \<longrightarrow>
      (\<forall>items. ExecMenu items \<notin> set acts) \<and>
      ((\<exists>r. NavigateToRef r \<in> set acts) \<longleftrightarrow>
         (\<not> isEmpty (m_selection v) \<and> findWordAtPoint v pos = Inr (m_selection v) \<and>
          length (symbolsAtSelection project v) = 1)) \<and>
      (\<forall>r. NavigateToRef r \<in> set acts \<longrightarrow>
         r = findSingleDefinitionOfSymbol project (symbolsAtSelection project v ! 0))) \<and>
   (contextMenuEvent project backEnabled forwardEnabled v pos = Inr (w', acts') \<longrightarrow>
      (\<exists>items. acts' = [ExecMenu items, Update] \<and>
         (\<not> isEmpty (m_selection w') \<longrightarrow>
            items = (if symbolsAtSelection project w' = []
                     then [MenuAction ''No symbols found'' False None]
                     else symbolMenuItems (symbolsAtSelection project w')) \<and>
            (\<forall>s. s \<in> set (symbolsAtSelection project w') \<longrightarrow>
               MenuAction s False None \<in> set items \<and>
               MenuAction ''Cross-references...'' True (Some s) \<in> set items))))"
proof (rule conjI)
  show "mouseReleaseEvent project v pos = Inr (v', acts) \<longrightarrow>
      (\<forall>items. ExecMenu items \<notin> set acts) \<and>
      ((\<exists>r. NavigateToRef r \<in> set acts) \<longleftrightarrow>
         (\<not> isEmpty (m_selection v) \<and> findWordAtPoint v pos = Inr (m_selection v) \<and>
          length (symbolsAtSelection project v) = 1)) \<and>
      (\<forall>r. NavigateToRef r \<in> set acts \<longrightarrow>
         r = findSingleDefinitionOfSymbol project (symbolsAtSelection project v ! 0))"
  proof
    assume "mouseReleaseEvent project v pos = Inr (v', acts)"
    then show "(\<forall>items. ExecMenu items \<notin> set acts) \<and>
      ((\<exists>r. NavigateToRef r \<in> set acts) \<longleftrightarrow>
         (\<not> isEmpty (m_selection v) \<and> findWordAtPoint v pos = Inr (m_selection v) \<and>
          length (symbolsAtSelection project v) = 1)) \<and>
      (\<forall>r. NavigateToRef r \<in> set acts \<longrightarrow>
         r = findSingleDefinitionOfSymbol project (symbolsAtSelection project v ! 0))"
      by (rule mouseReleaseEvent_actions)
  qed
next
  show "contextMenuEvent project backEnabled forwardEnabled v pos = Inr (w', acts') \<longrightarrow>
      (\<exists>items. acts' = [ExecMenu items, Update] \<and>
         (\<not> isEmpty (m_selection w') \<longrightarrow>
            items = (if symbolsAtSelection project w' = []
                     then [MenuAction ''No symbols found'' False None]
                     else symbolMenuItems (symbolsAtSelection project w')) \<and>
            (\<forall>s. s \<in> set (symbolsAtSelection project w') \<longrightarrow>
               MenuAction s False None \<in> set items \<and>
               MenuAction ''Cross-references...'' True (Some s) \<in> set items)))"
  proof
    assume "contextMenuEvent project backEnabled forwardEnabled v pos = Inr (w', acts')"
    from contextMenuEvent_actions[OF this] obtain items where
      a: "acts' = [ExecMenu items, Update]"
      and i: "\<not> isEmpty (m_selection w') \<Longrightarrow>
                items = (if symbolsAtSelection project w' = []
                         then [MenuAction ''No symbols found'' False None]
                         else symbolMenuItems (symbolsAtSelection project w'))" by blast
    have "\<not> isEmpty (m_selection w') \<longrightarrow>
              items = (if symbolsAtSelection project w' = []
                       then [MenuAction ''No symbols found'' False None]
                       else symbolMenuItems (symbolsAtSelection project w')) \<and>
              (\<forall>s. s \<in> set (symbolsAtSelection project w') \<longrightarrow>
                 MenuAction s False None \<in> set items \<and>
                 MenuAction ''Cross-references...'' True (Some s) \<in> set items)"
    proof
      assume ne: "\<not> isEmpty (m_selection w')"
      show "items = (if symbolsAtSelection project w' = []
                       then [MenuAction ''No symbols found'' False None]
                       else symbolMenuItems (symbolsAtSelection project w')) \<and>
              (\<forall>s. s \<in> set (symbolsAtSelection project w') \<longrightarrow>
                 MenuAction s False None \<in> set items \<and>
                 MenuAction ''Cross-references...'' True (Some s) \<in> set items)"
      proof (cases "symbolsAtSelection project w' = []")
        case True
        with i[OF ne] show ?thesis by simp
      next
        case False
        with i[OF ne] have "items = symbolMenuItems (symbolsAtSelection project w')" by simp
        with False symbolMenuItems_mem show ?thesis by simp
      qed
    qed
    with a show "\<exists>items. acts' = [ExecMenu items, Update] \<and>
           (\<not> isEmpty (m_selection w') \<longrightarrow>
              items = (if symbolsAtSelection project w' = []
                       then [MenuAction ''No symbols found'' False None]
                       else symbolMenuItems (symbolsAtSelection project w')) \<and>
              (\<forall>s. s \<in> set (symbolsAtSelection project w') \<longrightarrow>
                 MenuAction s False None \<in> set items \<and>
                 MenuAction ''Cross-references...'' True (Some s) \<in> set items))" by blast
  qed
qed

theorem click_navigates_on_unique_symbol_witness:
  "map_sum id snd (mouseReleaseEvent (exProject [''foo_bar'']) selectedView (mkPoint 40 5)) =
     Inr [Update, NavigateToRef exRef] \<and>
   map_sum id snd (mouseReleaseEvent (exProject []) selectedView (mkPoint 40 5)) = Inr [Update] \<and>
   map_sum id snd (contextMenuEvent (exProject [''foo_bar(int)'', ''foo_bar(char)'']) False False
                     selectedView (mkPoint 40 5)) =
     Inr [ExecMenu [MenuAction ''foo_bar(int)'' False None, MenuSeparator,
                    MenuAction ''Cross-references...'' True (Some ''foo_bar(int)''), MenuSeparator,
                    MenuAction ''foo_bar(char)'' False None, MenuSeparator,
                    MenuAction ''Cross-references...'' True (Some ''foo_bar(char)''), MenuSeparator],
          Update]"
proof -
  have a: "map_sum id snd (mouseReleaseEvent (exProject [''foo_bar'']) selectedView (mkPoint 40 5)) =
     Inr [Update, NavigateToRef exRef]" by code_simp
  then obtain v' where r: "mouseReleaseEvent (exProject [''foo_bar'']) selectedView (mkPoint 40 5) =
     Inr (v', [Update, NavigateToRef exRef])"
    by (cases "mouseReleaseEvent (exProject [''foo_bar'']) selectedView (mkPoint 40 5)") auto
  have b: "map_sum id snd (mouseReleaseEvent (exProject []) selectedView (mkPoint 40 5)) = Inr [Update]"
    by code_simp
  have c: "map_sum id snd (contextMenuEvent (exProject [''foo_bar(int)'', ''foo_bar(char)'']) False False
                     selectedView (mkPoint 40 5)) =
     Inr [ExecMenu [MenuAction ''foo_bar(int)'' False None, MenuSeparator,
                    MenuAction ''Cross-references...'' True (Some ''foo_bar(int)''), MenuSeparator,
                    MenuAction ''foo_bar(char)'' False None, MenuSeparator,
                    MenuAction ''Cross-references...'' True (Some ''foo_bar(char)''), MenuSeparator],
          Update]" by code_simp
  note th = click_navigates_on_unique_symbol[of "exProject [''foo_bar'']" selectedView "mkPoint 40 5"
      v' "[Update, NavigateToRef exRef]"]
  from th r a b c show ?thesis by simp
qed


end
